theory Spec2Isabelle
  imports Complex_Main "HOL-Library.Sublist" "HOL-Library.Multiset"
begin

section \<open>Data model (the interfaces of the types module)\<close>

text \<open>
  The TypeScript interfaces become records. Record fields share one name space in HOL, so
  every field carries a short prefix naming its interface: \<open>d_\<close> for Document,
  \<open>s_\<close> for Summary, \<open>h_\<close> for Highlight, \<open>ps_\<close> for ProcessingStatus.
  Optional properties (\<open>summary?\<close>) are options. A JavaScript number that holds a count
  or a size is an \<open>int\<close>; one that holds a coordinate or a score is a \<open>real\<close>
  (these are only ever stored and copied, never computed with).
\<close>

datatype status = Uploading | Processing | Completed | Error

fun status_str :: "status \<Rightarrow> string" where
  "status_str Uploading = ''uploading''"
| "status_str Processing = ''processing''"
| "status_str Completed = ''completed''"
| "status_str Error = ''error''"

record Summary =
  s_id :: string
  s_documentId :: string
  s_content :: string
  s_keyPoints :: "string list"
  s_createdAt :: string
  s_processingTime :: real

datatype highlight_type = KeyPoint | Important | Definition

record Highlight =
  h_id :: string
  h_documentId :: string
  h_pageNumber :: int
  h_x :: real
  h_y :: real
  h_width :: real
  h_height :: real
  h_text :: string
  h_type :: highlight_type
  h_confidence :: real

record Document =
  d_id :: string
  d_filename :: string
  d_originalName :: string
  d_fileSize :: int
  d_uploadedAt :: string
  d_status :: status
  d_summary :: "Summary option"
  d_highlights :: "Highlight list option"
  d_pageCount :: "int option"
  d_textContent :: "string option"

datatype stage = TextExtraction | Summarization | Highlighting | StageCompleted

record ProcessingStatus =
  ps_documentId :: string
  ps_stage :: stage
  ps_progress :: int
  ps_message :: string

text \<open>
  \<open>Partial<Document>\<close>: every property may be absent. \<open>None\<close> is an absent key,
  \<open>Some v\<close> a key that is present with value \<open>v\<close>; for the properties that are
  optional in Document the value itself is an option (a key present with the value
  \<open>undefined\<close> is \<open>Some None\<close>).
\<close>

record DocumentUpdates =
  u_id :: "string option"
  u_filename :: "string option"
  u_originalName :: "string option"
  u_fileSize :: "int option"
  u_uploadedAt :: "string option"
  u_status :: "status option"
  u_summary :: "Summary option option"
  u_highlights :: "Highlight list option option"
  u_pageCount :: "int option option"
  u_textContent :: "string option option"

definition no_updates :: DocumentUpdates where
  "no_updates = \<lparr>u_id = None, u_filename = None, u_originalName = None, u_fileSize = None,
     u_uploadedAt = None, u_status = None, u_summary = None, u_highlights = None,
     u_pageCount = None, u_textContent = None\<rparr>"

text \<open>The object spread \<open>{ ...doc, ...updates }\<close>: a key of \<open>updates\<close> wins.\<close>

definition override :: "'a \<Rightarrow> 'a option \<Rightarrow> 'a" where
  "override old new = (case new of None \<Rightarrow> old | Some v \<Rightarrow> v)"

definition spread :: "Document \<Rightarrow> DocumentUpdates \<Rightarrow> Document" where
  "spread doc updates =
     \<lparr>d_id = override (d_id doc) (u_id updates),
      d_filename = override (d_filename doc) (u_filename updates),
      d_originalName = override (d_originalName doc) (u_originalName updates),
      d_fileSize = override (d_fileSize doc) (u_fileSize updates),
      d_uploadedAt = override (d_uploadedAt doc) (u_uploadedAt updates),
      d_status = override (d_status doc) (u_status updates),
      d_summary = override (d_summary doc) (u_summary updates),
      d_highlights = override (d_highlights doc) (u_highlights updates),
      d_pageCount = override (d_pageCount doc) (u_pageCount updates),
      d_textContent = override (d_textContent doc) (u_textContent updates)\<rparr>"

section \<open>The document store (store/documentStore.ts)\<close>

text \<open>
  The zustand store is a record of its six state fields; an action is a function from the
  state to the next state. \<open>set(partial)\<close> replaces the fields named in \<open>partial\<close>
  and keeps the others, which is a record update.
\<close>

record DocumentStore =
  documents :: "Document list"
  currentDocument :: "Document option"
  currentSummary :: "Summary option"
  processingStatus :: "ProcessingStatus option"
  isLoading :: bool
  error :: "string option"

definition initial_store :: DocumentStore where
  "initial_store = \<lparr>documents = [], currentDocument = None, currentSummary = None,
     processingStatus = None, isLoading = False, error = None\<rparr>"


definition addDocument :: "Document \<Rightarrow> DocumentStore \<Rightarrow> DocumentStore" where
  "addDocument document state = state\<lparr>documents := document # documents state\<rparr>"

text \<open>
  \<open>state.currentDocument?.id === id\<close>: with no current document the left side is
  \<open>undefined\<close>, which is never equal to a string.
\<close>

definition current_has_id :: "Document option \<Rightarrow> string \<Rightarrow> bool" where
  "current_has_id cur i = (case cur of None \<Rightarrow> False | Some d \<Rightarrow> d_id d = i)"

definition summary_of_doc :: "Summary option \<Rightarrow> string \<Rightarrow> bool" where
  "summary_of_doc cur i = (case cur of None \<Rightarrow> False | Some s \<Rightarrow> s_documentId s = i)"

definition updateDocument :: "string \<Rightarrow> DocumentUpdates \<Rightarrow> DocumentStore \<Rightarrow> DocumentStore" where
  "updateDocument i updates state =
     state\<lparr>documents := map (\<lambda>doc. if d_id doc = i then spread doc updates else doc)
                             (documents state),
           currentDocument :=
             (if current_has_id (currentDocument state) i
              then map_option (\<lambda>cur. spread cur updates) (currentDocument state)
              else currentDocument state)\<rparr>"

definition removeDocument :: "string \<Rightarrow> DocumentStore \<Rightarrow> DocumentStore" where
  "removeDocument i state =
     state\<lparr>documents := filter (\<lambda>doc. d_id doc \<noteq> i) (documents state),
           currentDocument :=
             (if current_has_id (currentDocument state) i then None
              else currentDocument state),
           currentSummary :=
             (if summary_of_doc (currentSummary state) i then None
              else currentSummary state)\<rparr>"

definition setCurrentDocument :: "Document option \<Rightarrow> DocumentStore \<Rightarrow> DocumentStore" where
  "setCurrentDocument document state = state\<lparr>currentDocument := document\<rparr>"

definition setCurrentSummary :: "Summary option \<Rightarrow> DocumentStore \<Rightarrow> DocumentStore" where
  "setCurrentSummary summary state = state\<lparr>currentSummary := summary\<rparr>"

definition setProcessingStatus :: "ProcessingStatus option \<Rightarrow> DocumentStore \<Rightarrow> DocumentStore" where
  "setProcessingStatus st state = state\<lparr>processingStatus := st\<rparr>"


definition setError :: "string option \<Rightarrow> DocumentStore \<Rightarrow> DocumentStore" where
  "setError e state = state\<lparr>error := e\<rparr>"

definition clearError :: "DocumentStore \<Rightarrow> DocumentStore" where
  "clearError state = state\<lparr>error := None\<rparr>"

text \<open>Concrete documents used to run the definitions.\<close>

definition mk_doc :: "string \<Rightarrow> string \<Rightarrow> string \<Rightarrow> status \<Rightarrow> Document" where
  "mk_doc i name uploaded st =
     \<lparr>d_id = i, d_filename = name, d_originalName = name, d_fileSize = 1024,
      d_uploadedAt = uploaded, d_status = st, d_summary = None, d_highlights = None,
      d_pageCount = None, d_textContent = None\<rparr>"

definition mk_summary :: "string \<Rightarrow> string \<Rightarrow> Summary" where
  "mk_summary i doc =
     \<lparr>s_id = i, s_documentId = doc, s_content = ''text'', s_keyPoints = [],
      s_createdAt = ''2024-01-03'', s_processingTime = 2\<rparr>"

section \<open>The upload component (components/DocumentUpload.tsx)\<close>

text \<open>
  A browser \<open>File\<close> is an object: \<open>u.file === upload.file\<close> compares object identity.
  The field \<open>f_ref\<close> stands for that identity, so two records are equal exactly when they
  are the same object.
\<close>

record File =
  f_ref :: nat
  f_name :: string
  f_size :: nat
  f_type :: string

record UploadProgress =
  up_file :: File
  up_progress :: nat
  up_status :: status
  up_error :: "string option"

text \<open>
  What a rejected promise carries: an \<open>Error\<close> instance with its message, or any other
  value. \<open>error instanceof Error ? error.message : fallback\<close> is \<open>error_message\<close>.
\<close>

datatype thrown = ErrorObject string | OtherValue

definition error_message :: "thrown \<Rightarrow> string \<Rightarrow> string" where
  "error_message e fallback = (case e of ErrorObject m \<Rightarrow> m | OtherValue \<Rightarrow> fallback)"

datatype toast = ToastError string | ToastSuccess string

text \<open>
  The two \<open>setTimeout\<close> callbacks of \<open>onDrop\<close>, each closed over the file of its
  upload; and the calls of \<open>documentApi.uploadDocument\<close> as they are issued and settled.
\<close>

datatype timer = MarkCompleted File | RemoveUpload File

fun timer_file :: "timer \<Rightarrow> File" where
  "timer_file (MarkCompleted file) = file"
| "timer_file (RemoveUpload file) = file"

datatype api_event = Issued File | Resolved File | Rejected File

text \<open>
  The state the component works on: its \<open>uploads\<close> list (\<open>useState\<close>), the store, the
  notices shown so far, the pending timers with the time (in ms) at which each is due,
  the clock, and the log of API calls.
\<close>

record World =
  uploads :: "UploadProgress list"
  store :: DocumentStore
  toasts :: "toast list"
  timers :: "(nat \<times> timer) list"
  now :: nat
  calls :: "api_event list"

definition initial_world :: World where
  "initial_world = \<lparr>uploads = [], store = initial_store, toasts = [], timers = [],
     now = 0, calls = []\<rparr>"

subsection \<open>Validation (lines 21 to 43)\<close>

text \<open>
  \<open>isValidPDF\<close> comes from \<open>@/lib/utils\<close>, which is not part of the sources at hand; it
  is a parameter. \<open>reject_notice\<close> is the body of the filter callback: the notice it
  shows when it returns \<open>false\<close>, \<open>None\<close> when it returns \<open>true\<close>.
\<close>

definition reject_notice :: "(File \<Rightarrow> bool) \<Rightarrow> File \<Rightarrow> toast option" where
  "reject_notice isValidPDF file =
     (if \<not> isValidPDF file then Some (ToastError (f_name file @ '' is not a valid PDF file''))
      else if f_size file > 50 * 1024 * 1024
        then Some (ToastError (f_name file @ '' is too large (max 50MB)''))
      else None)"

definition accepts :: "(File \<Rightarrow> bool) \<Rightarrow> File \<Rightarrow> bool" where
  "accepts isValidPDF file = (reject_notice isValidPDF file = None)"

definition new_upload :: "File \<Rightarrow> UploadProgress" where
  "new_upload file = \<lparr>up_file = file, up_progress = 0, up_status = Uploading, up_error = None\<rparr>"

definition start_uploads :: "(File \<Rightarrow> bool) \<Rightarrow> File list \<Rightarrow> World \<Rightarrow> World" where
  "start_uploads isValidPDF acceptedFiles w =
     (let validFiles = filter (accepts isValidPDF) acceptedFiles;
          w1 = w\<lparr>toasts := toasts w @ List.map_filter (reject_notice isValidPDF) acceptedFiles\<rparr>
      in if length validFiles = 0 then w1
         else w1\<lparr>uploads := uploads w1 @ map new_upload validFiles\<rparr>)"

subsection \<open>Timers\<close>

text \<open>
  \<open>setTimeout(cb, delay)\<close> puts the callback in the queue of pending timers, due at
  \<open>now + delay\<close>. The queue is kept in the order in which the timers run: by due time,
  and among equal due times in the order of scheduling.
\<close>

fun schedule :: "nat \<times> timer \<Rightarrow> (nat \<times> timer) list \<Rightarrow> (nat \<times> timer) list" where
  "schedule x [] = [x]"
| "schedule x (y # ys) = (if fst x < fst y then x # y # ys else y # schedule x ys)"

definition set_status :: "File \<Rightarrow> status \<Rightarrow> UploadProgress list \<Rightarrow> UploadProgress list" where
  "set_status file st prev = map (\<lambda>u. if up_file u = file then u\<lparr>up_status := st\<rparr> else u) prev"

text \<open>Lines 70 to 81: the outer callback marks the entry and starts the inner timer.\<close>

fun fire :: "timer \<Rightarrow> World \<Rightarrow> World" where
  "fire (MarkCompleted file) w =
     w\<lparr>uploads := set_status file Completed (uploads w),
       timers := schedule (now w + 3000, RemoveUpload file) (timers w)\<rparr>"
| "fire (RemoveUpload file) w =
     w\<lparr>uploads := filter (\<lambda>u. up_file u \<noteq> file) (uploads w)\<rparr>"

text \<open>How many callbacks a pending timer still stands for: itself and the timer it starts.\<close>

fun timer_weight :: "nat \<times> timer \<Rightarrow> nat" where
  "timer_weight (due, MarkCompleted file) = 2"
| "timer_weight (due, RemoveUpload file) = 1"

text \<open>
  The event loop while the code is idle until time \<open>t\<close>: every timer due by then runs, in
  queue order, at the time it is due (an idealised clock: a browser may run a callback
  later than its delay, never earlier).
\<close>

function advance_to :: "nat \<Rightarrow> World \<Rightarrow> World" where
  "advance_to t w =
     (case timers w of
        [] \<Rightarrow> w\<lparr>now := max (now w) t\<rparr>
      | x # rest \<Rightarrow>
          if fst x \<le> t
          then advance_to t (fire (snd x) (w\<lparr>now := max (now w) (fst x), timers := rest\<rparr>))
          else w\<lparr>now := max (now w) t\<rparr>)"
  by pat_completeness auto
termination
proof (relation "measure (\<lambda>(t, w). sum_list (map timer_weight (timers w)))")
  show "wf (measure (\<lambda>(t, w). sum_list (map timer_weight (timers w))))"
    by simp
next
  fix t :: nat and w :: World and x :: "nat \<times> timer" and rest :: "(nat \<times> timer) list"
  assume tw: "timers w = x # rest" and "fst x \<le> t"
  have sched: "sum_list (map timer_weight (schedule y ys)) =
                 timer_weight y + sum_list (map timer_weight ys)" for y ys
    by (induction ys) auto
  obtain due a where x: "x = (due, a)"
    by (cases x)
  have "sum_list (map timer_weight
          (timers (fire a (w\<lparr>now := max (now w) due, timers := rest\<rparr>))))
        < sum_list (map timer_weight (timers w))"
    by (cases a) (simp_all add: tw x sched)
  then show "((t, fire (snd x) (w\<lparr>now := max (now w) (fst x), timers := rest\<rparr>)), (t, w))
             \<in> measure (\<lambda>(t, w). sum_list (map timer_weight (timers w)))"
    by (simp add: x)
qed

subsection \<open>The sequential upload loop (lines 46 to 100)\<close>

text \<open>
  \<open>documentApi.uploadDocument\<close> is the remote side. What one call does is given from
  outside: the progress callbacks it makes (each with the time in ms since the previous
  one and the percentage it reports), the time from the last callback until the promise
  settles, and how it settles.
\<close>

record upload_outcome =
  progress_events :: "(nat \<times> nat) list"
  settle_delay :: nat
  result :: "thrown + Document"

text \<open>Lines 50 to 56, the progress callback.\<close>

definition on_progress :: "File \<Rightarrow> nat \<Rightarrow> World \<Rightarrow> World" where
  "on_progress file p w =
     w\<lparr>uploads := map (\<lambda>u. if up_file u = file then u\<lparr>up_progress := p\<rparr> else u) (uploads w)\<rparr>"

fun report_progress :: "File \<Rightarrow> (nat \<times> nat) list \<Rightarrow> World \<Rightarrow> World" where
  "report_progress file [] w = w"
| "report_progress file (ev # evs) w =
     report_progress file evs (on_progress file (snd ev) (advance_to (now w + fst ev) w))"

text \<open>Lines 59 to 83, the rest of the \<open>try\<close> block once the call has resolved.\<close>

definition upload_resolved :: "UploadProgress \<Rightarrow> Document \<Rightarrow> World \<Rightarrow> World" where
  "upload_resolved upload document w =
     w\<lparr>uploads := map (\<lambda>u. if up_file u = up_file upload
                             then u\<lparr>up_status := Processing, up_progress := 100\<rparr> else u)
                      (uploads w),
       store := addDocument document (store w),
       timers := schedule (now w + 1000, MarkCompleted (up_file upload)) (timers w),
       toasts := toasts w @ [ToastSuccess (f_name (up_file upload) @ '' uploaded successfully'')]\<rparr>"

text \<open>Lines 85 to 99, the \<open>catch\<close> block.\<close>

definition upload_rejected :: "UploadProgress \<Rightarrow> thrown \<Rightarrow> World \<Rightarrow> World" where
  "upload_rejected upload e w =
     w\<lparr>uploads := map (\<lambda>u. if up_file u = up_file upload
                             then u\<lparr>up_status := Error,
                                    up_error := Some (error_message e ''Upload failed'')\<rparr>
                             else u)
                      (uploads w),
       store := setError (Some (error_message e ''Upload failed'')) (store w),
       toasts := toasts w @ [ToastError (''Failed to upload '' @ f_name (up_file upload))]\<rparr>"

text \<open>
  One iteration of the \<open>for\<close> loop. The call is issued and the function is suspended
  at \<open>await\<close> while the progress callbacks and the timers run, until the call has
  settled (\<open>awaited\<close>); then the \<open>try\<close> block goes on or the \<open>catch\<close> block runs.
\<close>

definition settled :: "(File \<Rightarrow> upload_outcome) \<Rightarrow> File \<Rightarrow> api_event" where
  "settled api file = (case result (api file) of Inl e \<Rightarrow> Rejected file | Inr d \<Rightarrow> Resolved file)"

definition awaited :: "(File \<Rightarrow> upload_outcome) \<Rightarrow> UploadProgress \<Rightarrow> World \<Rightarrow> World" where
  "awaited api upload w =
     (let file = up_file upload;
          w1 = w\<lparr>calls := calls w @ [Issued file]\<rparr>;
          w2 = report_progress file (progress_events (api file)) w1;
          w3 = advance_to (now w2 + settle_delay (api file)) w2
      in w3\<lparr>calls := calls w3 @ [settled api file]\<rparr>)"

definition upload_one :: "(File \<Rightarrow> upload_outcome) \<Rightarrow> UploadProgress \<Rightarrow> World \<Rightarrow> World" where
  "upload_one api upload w =
     (case result (api (up_file upload)) of
        Inr document \<Rightarrow> upload_resolved upload document (awaited api upload w)
      | Inl e \<Rightarrow> upload_rejected upload e (awaited api upload w))"

fun upload_loop :: "(File \<Rightarrow> upload_outcome) \<Rightarrow> UploadProgress list \<Rightarrow> World \<Rightarrow> World" where
  "upload_loop api [] w = w"
| "upload_loop api (upload # rest) w = upload_loop api rest (upload_one api upload w)"

text \<open>
  The whole handler: validation, then the loop over the new entries. A drop is followed
  to its end, with the clock advancing while each call is awaited; \<open>console.error\<close>
  is left out.
\<close>

definition onDrop :: "(File \<Rightarrow> bool) \<Rightarrow> (File \<Rightarrow> upload_outcome) \<Rightarrow> File list \<Rightarrow> World \<Rightarrow> World" where
  "onDrop isValidPDF api acceptedFiles w =
     upload_loop api (map new_upload (filter (accepts isValidPDF) acceptedFiles))
       (start_uploads isValidPDF acceptedFiles w)"

subsection \<open>The dropzone (lines 103 to 110)\<close>

text \<open>
  The handler is registered with \<open>useDropzone({ onDrop, accept: {'application/pdf':
  ['.pdf']}, multiple: true, maxSize: 50 * 1024 * 1024 })\<close>. On a drop, react-dropzone
  calls \<open>onDrop(acceptedFiles, fileRejections)\<close>: the accepted files are those that match
  \<open>accept\<close> and whose size is at most \<open>maxSize\<close>, the others are the rejections. The
  handler takes the first argument only, and the component registers no
  \<open>onDropRejected\<close>. Whether a file matches \<open>accept\<close> is decided by the library and is a
  parameter.
\<close>

definition dropzone_accepts :: "(File \<Rightarrow> bool) \<Rightarrow> File \<Rightarrow> bool" where
  "dropzone_accepts matchesAccept file = (matchesAccept file \<and> f_size file \<le> 50 * 1024 * 1024)"

definition drop_files ::
  "(File \<Rightarrow> bool) \<Rightarrow> (File \<Rightarrow> bool) \<Rightarrow> (File \<Rightarrow> upload_outcome) \<Rightarrow> File list \<Rightarrow> World \<Rightarrow> World" where
  "drop_files matchesAccept isValidPDF api files w =
     onDrop isValidPDF api (filter (dropzone_accepts matchesAccept) files) w"

text \<open>The notice that closes the upload of a file (lines 83 and 98).\<close>

definition upload_toast :: "(File \<Rightarrow> upload_outcome) \<Rightarrow> File \<Rightarrow> toast" where
  "upload_toast api file =
     (case result (api file) of
        Inl e \<Rightarrow> ToastError (''Failed to upload '' @ f_name file)
      | Inr d \<Rightarrow> ToastSuccess (f_name file @ '' uploaded successfully''))"

text \<open>The entries and the pending timers of one file.\<close>

definition entries_of :: "File \<Rightarrow> World \<Rightarrow> UploadProgress list" where
  "entries_of file w = filter (\<lambda>u. up_file u = file) (uploads w)"

definition timers_of :: "File \<Rightarrow> World \<Rightarrow> (nat \<times> timer) list" where
  "timers_of file w = filter (\<lambda>x. timer_file (snd x) = file) (timers w)"

text \<open>The documents that the calls for a list of files resolve with, in the order of the files.\<close>

definition resolved_docs :: "(File \<Rightarrow> upload_outcome) \<Rightarrow> File list \<Rightarrow> Document list" where
  "resolved_docs api files =
     List.map_filter (\<lambda>file. case result (api file) of Inl e \<Rightarrow> None | Inr d \<Rightarrow> Some d) files"

section \<open>The home page (pages/HomePage.tsx)\<close>

subsection \<open>Loading the list (lines 42 to 56)\<close>


subsection \<open>Filtering and sorting (lines 59 to 82)\<close>

datatype SortBy = SortRecent | SortName | SortSize

datatype FilterBy = FilterAll | FilterCompleted | FilterProcessing | FilterError

fun filterBy_str :: "FilterBy \<Rightarrow> string" where
  "filterBy_str FilterAll = ''all''"
| "filterBy_str FilterCompleted = ''completed''"
| "filterBy_str FilterProcessing = ''processing''"
| "filterBy_str FilterError = ''error''"

text \<open>\<open>String.prototype.includes\<close>: the second string occurs in the first.\<close>

fun includes_str :: "string \<Rightarrow> string \<Rightarrow> bool" where
  "includes_str [] q = (q = [])"
| "includes_str (c # cs) q = (prefix q (c # cs) \<or> includes_str cs q)"

text \<open>
  The filter callback. \<open>toLowerCase\<close> is the built-in of the JavaScript engine and a
  parameter here. An empty \<open>searchQuery\<close> is falsy.
\<close>

definition keep_doc :: "(string \<Rightarrow> string) \<Rightarrow> FilterBy \<Rightarrow> string \<Rightarrow> Document \<Rightarrow> bool" where
  "keep_doc toLowerCase filterBy searchQuery doc =
     (if filterBy \<noteq> FilterAll \<and> status_str (d_status doc) \<noteq> filterBy_str filterBy then False
      else if searchQuery \<noteq> [] \<and>
              \<not> includes_str (toLowerCase (d_originalName doc)) (toLowerCase searchQuery)
        then False
      else True)"

text \<open>
  The comparator. \<open>getTime s\<close> stands for \<open>new Date(s).getTime()\<close>, which is \<open>NaN\<close>
  (here \<open>None\<close>) for a string that is no date; a difference with \<open>NaN\<close> is \<open>NaN\<close>.
  \<open>localeCompare\<close> is the engine's collation. Both are parameters.
\<close>

definition compare_docs ::
  "(string \<Rightarrow> int option) \<Rightarrow> (string \<Rightarrow> string \<Rightarrow> int) \<Rightarrow> SortBy \<Rightarrow> Document \<Rightarrow> Document \<Rightarrow> int option" where
  "compare_docs getTime localeCompare sortBy a b =
     (case sortBy of
        SortRecent \<Rightarrow>
          (case (getTime (d_uploadedAt b), getTime (d_uploadedAt a)) of
             (Some tb, Some ta) \<Rightarrow> Some (tb - ta)
           | _ \<Rightarrow> None)
      | SortName \<Rightarrow> Some (localeCompare (d_originalName a) (d_originalName b))
      | SortSize \<Rightarrow> Some (d_fileSize b - d_fileSize a))"

text \<open>
  \<open>Array.prototype.sort\<close> with a comparator: a \<open>NaN\<close> result counts as 0, and the sort
  is stable. For a consistent comparator every stable sort gives the same list, which
  insertion from the right computes; for an inconsistent one the language leaves the
  order to the engine.
\<close>

definition sort_compare :: "('a \<Rightarrow> 'a \<Rightarrow> int option) \<Rightarrow> 'a \<Rightarrow> 'a \<Rightarrow> int" where
  "sort_compare cmp a b = (case cmp a b of None \<Rightarrow> 0 | Some v \<Rightarrow> v)"

fun insert_sorted :: "('a \<Rightarrow> 'a \<Rightarrow> int option) \<Rightarrow> 'a \<Rightarrow> 'a list \<Rightarrow> 'a list" where
  "insert_sorted cmp x [] = [x]"
| "insert_sorted cmp x (y # ys) =
     (if sort_compare cmp x y \<le> 0 then x # y # ys else y # insert_sorted cmp x ys)"

fun sort_js :: "('a \<Rightarrow> 'a \<Rightarrow> int option) \<Rightarrow> 'a list \<Rightarrow> 'a list" where
  "sort_js cmp [] = []"
| "sort_js cmp (x # xs) = insert_sorted cmp x (sort_js cmp xs)"

definition filteredAndSortedDocuments ::
  "(string \<Rightarrow> string) \<Rightarrow> (string \<Rightarrow> int option) \<Rightarrow> (string \<Rightarrow> string \<Rightarrow> int) \<Rightarrow>
   FilterBy \<Rightarrow> string \<Rightarrow> SortBy \<Rightarrow> Document list \<Rightarrow> Document list" where
  "filteredAndSortedDocuments toLowerCase getTime localeCompare filterBy searchQuery sortBy docs =
     sort_js (compare_docs getTime localeCompare sortBy)
       (filter (keep_doc toLowerCase filterBy searchQuery) docs)"

section \<open>The document card (DocumentCard.handleDelete)\<close>

text \<open>
  The card's own state is \<open>isDeleting\<close>; it works on the store and shows notices.
  \<open>confirmed\<close> is the answer to the \<open>confirm\<close> dialog, \<open>response\<close> how
  \<open>documentApi.deleteDocument\<close> settles (\<open>None\<close>: resolved, \<open>Some e\<close>: rejected with
  \<open>e\<close>). \<open>delete_calls\<close> logs the identifiers the API was called with.
\<close>

record Card =
  isDeleting :: bool
  card_store :: DocumentStore
  card_toasts :: "toast list"
  delete_calls :: "string list"

definition handleDelete :: "bool \<Rightarrow> thrown option \<Rightarrow> Document \<Rightarrow> Card \<Rightarrow> Card" where
  "handleDelete confirmed response document c =
     (if \<not> confirmed then c
      else
        let c1 = c\<lparr>isDeleting := True\<rparr>;
            c2 = c1\<lparr>delete_calls := delete_calls c1 @ [d_id document]\<rparr>;
            c3 = (case response of
                    None \<Rightarrow>
                      c2\<lparr>card_store := removeDocument (d_id document) (card_store c2),
                         card_toasts := card_toasts c2 @ [ToastSuccess ''Document deleted successfully'']\<rparr>
                  | Some e \<Rightarrow>
                      c2\<lparr>card_toasts := card_toasts c2 @ [ToastError ''Failed to delete document'']\<rparr>)
        in c3\<lparr>isDeleting := False\<rparr>)"

section \<open>The state of the timer queue and of one file's upload\<close>

declare advance_to.simps [simp del]

text \<open>
  The queue is in running order and no pending timer is due before the clock
  (\<open>timers_sound\<close>); when the code is idle every pending timer is still ahead of the clock
  (\<open>quiet\<close>).
\<close>

definition timers_sound :: "World \<Rightarrow> bool" where
  "timers_sound w = (sorted (map fst (timers w)) \<and> (\<forall>x \<in> set (timers w). now w \<le> fst x))"

definition quiet :: "World \<Rightarrow> bool" where
  "quiet w = (\<forall>x \<in> set (timers w). now w < fst x)"

text \<open>
  Where the \<open>n\<close> entries of a file stand whose upload resolved at time \<open>t0\<close>: waiting for
  the first timer, waiting for the second, or removed.
\<close>

definition phase :: "File \<Rightarrow> nat \<Rightarrow> nat \<Rightarrow> World \<Rightarrow> bool" where
  "phase f t0 n w =
     (timers_sound w \<and>
      ((timers_of f w = [(t0 + 1000, MarkCompleted f)]
          \<and> map up_status (entries_of f w) = replicate n Processing \<and> now w \<le> t0 + 1000)
       \<or> (timers_of f w = [(t0 + 4000, RemoveUpload f)]
          \<and> map up_status (entries_of f w) = replicate n Completed
          \<and> t0 + 1000 \<le> now w \<and> now w \<le> t0 + 4000)
       \<or> (timers_of f w = [] \<and> entries_of f w = [] \<and> t0 + 4000 \<le> now w)))"

section \<open>Example inputs\<close>

definition example_store :: DocumentStore where
  "example_store =
     \<lparr>documents = [mk_doc ''d1'' ''b.pdf'' ''2024-01-01'' Processing,
                   mk_doc ''d2'' ''a.pdf'' ''2024-01-02'' Completed],
      currentDocument = Some (mk_doc ''d1'' ''b.pdf'' ''2024-01-01'' Processing),
      currentSummary = Some (mk_summary ''s2'' ''d2''),
      processingStatus = None, isLoading = False, error = None\<rparr>"

definition file_a :: File where
  "file_a = \<lparr>f_ref = 1, f_name = ''a.pdf'', f_size = 1000, f_type = ''application/pdf''\<rparr>"

definition file_b :: File where
  "file_b = \<lparr>f_ref = 2, f_name = ''b.pdf'', f_size = 2000, f_type = ''application/pdf''\<rparr>"

definition file_c :: File where
  "file_c = \<lparr>f_ref = 3, f_name = ''c.pdf'', f_size = 50 * 1024 * 1024,
     f_type = ''application/pdf''\<rparr>"

definition file_big :: File where
  "file_big = \<lparr>f_ref = 4, f_name = ''big.pdf'', f_size = 50 * 1024 * 1024 + 1,
     f_type = ''application/pdf''\<rparr>"

definition file_txt :: File where
  "file_txt = \<lparr>f_ref = 5, f_name = ''notes.txt'', f_size = 10, f_type = ''text/plain''\<rparr>"

definition example_matchesAccept :: "File \<Rightarrow> bool" where
  "example_matchesAccept file = (f_type file = ''application/pdf'')"

definition example_isValidPDF :: "File \<Rightarrow> bool" where
  "example_isValidPDF file = (f_type file = ''application/pdf'')"

text \<open>The upload of \<open>a.pdf\<close> resolves after 200 ms, every other upload is rejected after 300 ms.\<close>

definition example_api :: "File \<Rightarrow> upload_outcome" where
  "example_api file =
     (if file = file_a
      then \<lparr>progress_events = [(100, 50)], settle_delay = 100,
            result = Inr (mk_doc ''d3'' ''a.pdf'' ''2024-01-03'' Processing)\<rparr>
      else \<lparr>progress_events = [], settle_delay = 300,
            result = Inl (ErrorObject ''Network Error'')\<rparr>)"

definition dropped :: World where
  "dropped = start_uploads example_isValidPDF [file_a, file_b] initial_world"

definition example_card :: Card where
  "example_card = \<lparr>isDeleting = False, card_store = example_store, card_toasts = [],
     delete_calls = []\<rparr>"

definition example_getTime :: "string \<Rightarrow> int option" where
  "example_getTime s =
     (if s = ''2024-01-01'' then Some 1704067200000
      else if s = ''2024-01-02'' then Some 1704153600000
      else None)"

text \<open>A stand-in for the engine's collation: it compares the codes of the first characters.\<close>

definition first_code :: "string \<Rightarrow> int" where
  "first_code s = (case s of [] \<Rightarrow> 0 | c # cs \<Rightarrow> of_char c)"

definition example_localeCompare :: "string \<Rightarrow> string \<Rightarrow> int" where
  "example_localeCompare x y = first_code x - first_code y"

section \<open>Properties of the document store\<close>

text \<open>
  Claim C1. For every store state and every identifier, \<open>removeDocument\<close> deletes the
  documents with that identifier and keeps all others in their order; it sets
  \<open>currentDocument\<close> to null when the current document has that identifier and leaves it
  as it was otherwise; it sets \<open>currentSummary\<close> to null when the current summary belongs
  to that document and leaves it as it was otherwise; the other fields stay.
\<close>

theorem removeDocument_clears_references:
  "set (documents (removeDocument i s)) = {d \<in> set (documents s). d_id d \<noteq> i}
   \<and> subseq (documents (removeDocument i s)) (documents s)
   \<and> filter (\<lambda>d. d_id d \<noteq> i) (documents (removeDocument i s))
       = filter (\<lambda>d. d_id d \<noteq> i) (documents s)
   \<and> ((\<exists>d. currentDocument s = Some d \<and> d_id d = i)
         \<longrightarrow> currentDocument (removeDocument i s) = None)
   \<and> (\<not> (\<exists>d. currentDocument s = Some d \<and> d_id d = i)
         \<longrightarrow> currentDocument (removeDocument i s) = currentDocument s)
   \<and> ((\<exists>m. currentSummary s = Some m \<and> s_documentId m = i)
         \<longrightarrow> currentSummary (removeDocument i s) = None)
   \<and> (\<not> (\<exists>m. currentSummary s = Some m \<and> s_documentId m = i)
         \<longrightarrow> currentSummary (removeDocument i s) = currentSummary s)
   \<and> processingStatus (removeDocument i s) = processingStatus s
   \<and> isLoading (removeDocument i s) = isLoading s
   \<and> error (removeDocument i s) = error s"
  by (auto simp: removeDocument_def current_has_id_def summary_of_doc_def split: option.splits)

theorem removeDocument_clears_references_witness:
  "(\<exists>d. currentDocument example_store = Some d \<and> d_id d = ''d1'')
   \<and> currentDocument (removeDocument ''d1'' example_store) = None
   \<and> \<not> (\<exists>m. currentSummary example_store = Some m \<and> s_documentId m = ''d1'')
   \<and> currentSummary (removeDocument ''d1'' example_store) = Some (mk_summary ''s2'' ''d2'')
   \<and> (\<exists>m. currentSummary example_store = Some m \<and> s_documentId m = ''d2'')
   \<and> currentSummary (removeDocument ''d2'' example_store) = None
   \<and> \<not> (\<exists>d. currentDocument example_store = Some d \<and> d_id d = ''d2'')
   \<and> currentDocument (removeDocument ''d2'' example_store)
       = Some (mk_doc ''d1'' ''b.pdf'' ''2024-01-01'' Processing)"
  using removeDocument_clears_references [of "''d1''" example_store]
    removeDocument_clears_references [of "''d2''" example_store]
  by (simp add: example_store_def mk_doc_def mk_summary_def)

text \<open>
  Claim C2. For every store state, \<open>updateDocument\<close> merges the given fields into every
  document of the collection whose identifier matches and changes nothing in the
  collection when none matches; when the current document has that identifier it is
  replaced by its merge with the same fields, which is the value the collection then holds
  for it when the collection held the current document; in particular, after
  \<open>updateDocument(id, {status: 'completed'})\<close> a current document with that identifier
  has status completed. The merge is given field by field: each of the ten properties of
  the merged document is the value given for it in the updates, and the document's own
  value when the updates do not have the key.
\<close>

theorem updateDocument_merges:
  "documents (updateDocument i u s)
     = map (\<lambda>d. if d_id d = i then spread d u else d) (documents s)
   \<and> ((\<forall>d \<in> set (documents s). d_id d \<noteq> i) \<longrightarrow> documents (updateDocument i u s) = documents s)
   \<and> (\<forall>cur. currentDocument s = Some cur \<and> d_id cur = i
         \<longrightarrow> currentDocument (updateDocument i u s) = Some (spread cur u))
   \<and> (\<forall>cur. currentDocument s = Some cur \<and> d_id cur = i \<and> cur \<in> set (documents s)
         \<longrightarrow> spread cur u \<in> set (documents (updateDocument i u s)))
   \<and> (\<forall>cur. currentDocument s = Some cur \<and> d_id cur = i
         \<longrightarrow> map_option d_status
               (currentDocument (updateDocument i (no_updates\<lparr>u_status := Some Completed\<rparr>) s))
             = Some Completed)
   \<and> (\<forall>d st. u_status u = Some st \<longrightarrow> d_status (spread d u) = st)
   \<and> (\<forall>d. u_status u = None \<longrightarrow> d_status (spread d u) = d_status d)
   \<and> (\<forall>d. d_id (spread d u) = (case u_id u of None \<Rightarrow> d_id d | Some v \<Rightarrow> v))
   \<and> (\<forall>d. d_filename (spread d u) = (case u_filename u of None \<Rightarrow> d_filename d | Some v \<Rightarrow> v))
   \<and> (\<forall>d. d_originalName (spread d u)
           = (case u_originalName u of None \<Rightarrow> d_originalName d | Some v \<Rightarrow> v))
   \<and> (\<forall>d. d_fileSize (spread d u) = (case u_fileSize u of None \<Rightarrow> d_fileSize d | Some v \<Rightarrow> v))
   \<and> (\<forall>d. d_uploadedAt (spread d u)
           = (case u_uploadedAt u of None \<Rightarrow> d_uploadedAt d | Some v \<Rightarrow> v))
   \<and> (\<forall>d. d_status (spread d u) = (case u_status u of None \<Rightarrow> d_status d | Some v \<Rightarrow> v))
   \<and> (\<forall>d. d_summary (spread d u) = (case u_summary u of None \<Rightarrow> d_summary d | Some v \<Rightarrow> v))
   \<and> (\<forall>d. d_highlights (spread d u)
           = (case u_highlights u of None \<Rightarrow> d_highlights d | Some v \<Rightarrow> v))
   \<and> (\<forall>d. d_pageCount (spread d u) = (case u_pageCount u of None \<Rightarrow> d_pageCount d | Some v \<Rightarrow> v))
   \<and> (\<forall>d. d_textContent (spread d u)
           = (case u_textContent u of None \<Rightarrow> d_textContent d | Some v \<Rightarrow> v))
   \<and> (\<forall>d. spread d no_updates = d)"
proof -
  have no_op: "map (\<lambda>d. if d_id d = i then spread d u else d) ds = ds"
    if "\<forall>d \<in> set ds. d_id d \<noteq> i" for ds
    using that by (induction ds) auto
  have store: "documents (updateDocument i u s)
     = map (\<lambda>d. if d_id d = i then spread d u else d) (documents s)
   \<and> ((\<forall>d \<in> set (documents s). d_id d \<noteq> i) \<longrightarrow> documents (updateDocument i u s) = documents s)
   \<and> (\<forall>cur. currentDocument s = Some cur \<and> d_id cur = i
         \<longrightarrow> currentDocument (updateDocument i u s) = Some (spread cur u))
   \<and> (\<forall>cur. currentDocument s = Some cur \<and> d_id cur = i \<and> cur \<in> set (documents s)
         \<longrightarrow> spread cur u \<in> set (documents (updateDocument i u s)))
   \<and> (\<forall>cur. currentDocument s = Some cur \<and> d_id cur = i
         \<longrightarrow> map_option d_status
               (currentDocument (updateDocument i (no_updates\<lparr>u_status := Some Completed\<rparr>) s))
             = Some Completed)"
    by (auto simp: updateDocument_def current_has_id_def no_op spread_def override_def
        no_updates_def)
  have fields: "(\<forall>d st. u_status u = Some st \<longrightarrow> d_status (spread d u) = st)
   \<and> (\<forall>d. u_status u = None \<longrightarrow> d_status (spread d u) = d_status d)
   \<and> (\<forall>d. d_id (spread d u) = (case u_id u of None \<Rightarrow> d_id d | Some v \<Rightarrow> v))
   \<and> (\<forall>d. d_filename (spread d u) = (case u_filename u of None \<Rightarrow> d_filename d | Some v \<Rightarrow> v))
   \<and> (\<forall>d. d_originalName (spread d u)
           = (case u_originalName u of None \<Rightarrow> d_originalName d | Some v \<Rightarrow> v))
   \<and> (\<forall>d. d_fileSize (spread d u) = (case u_fileSize u of None \<Rightarrow> d_fileSize d | Some v \<Rightarrow> v))
   \<and> (\<forall>d. d_uploadedAt (spread d u)
           = (case u_uploadedAt u of None \<Rightarrow> d_uploadedAt d | Some v \<Rightarrow> v))
   \<and> (\<forall>d. d_status (spread d u) = (case u_status u of None \<Rightarrow> d_status d | Some v \<Rightarrow> v))
   \<and> (\<forall>d. d_summary (spread d u) = (case u_summary u of None \<Rightarrow> d_summary d | Some v \<Rightarrow> v))
   \<and> (\<forall>d. d_highlights (spread d u)
           = (case u_highlights u of None \<Rightarrow> d_highlights d | Some v \<Rightarrow> v))
   \<and> (\<forall>d. d_pageCount (spread d u) = (case u_pageCount u of None \<Rightarrow> d_pageCount d | Some v \<Rightarrow> v))
   \<and> (\<forall>d. d_textContent (spread d u)
           = (case u_textContent u of None \<Rightarrow> d_textContent d | Some v \<Rightarrow> v))
   \<and> (\<forall>d. spread d no_updates = d)"
    by (simp add: spread_def override_def no_updates_def)
  from store fields show ?thesis
    by blast
qed

theorem updateDocument_merges_witness:
  "currentDocument example_store = Some (mk_doc ''d1'' ''b.pdf'' ''2024-01-01'' Processing)
   \<and> d_id (mk_doc ''d1'' ''b.pdf'' ''2024-01-01'' Processing) = ''d1''
   \<and> mk_doc ''d1'' ''b.pdf'' ''2024-01-01'' Processing \<in> set (documents example_store)
   \<and> map_option d_status
       (currentDocument
          (updateDocument ''d1'' (no_updates\<lparr>u_status := Some Completed\<rparr>) example_store))
     = Some Completed
   \<and> mk_doc ''d1'' ''b.pdf'' ''2024-01-01'' Completed
       \<in> set (documents
               (updateDocument ''d1'' (no_updates\<lparr>u_status := Some Completed\<rparr>) example_store))
   \<and> ''d9'' \<notin> d_id ` set (documents example_store)
   \<and> documents (updateDocument ''d9'' (no_updates\<lparr>u_status := Some Completed\<rparr>) example_store)
       = documents example_store
   \<and> documents (updateDocument ''d1''
         (no_updates\<lparr>u_originalName := Some ''renamed.pdf'', u_pageCount := Some (Some 12)\<rparr>)
         example_store)
       = [(mk_doc ''d1'' ''b.pdf'' ''2024-01-01'' Processing)
            \<lparr>d_originalName := ''renamed.pdf'', d_pageCount := Some 12\<rparr>,
          mk_doc ''d2'' ''a.pdf'' ''2024-01-02'' Completed]
   \<and> currentDocument (updateDocument ''d1''
         (no_updates\<lparr>u_originalName := Some ''renamed.pdf'', u_pageCount := Some (Some 12)\<rparr>)
         example_store)
       = Some ((mk_doc ''d1'' ''b.pdf'' ''2024-01-01'' Processing)
            \<lparr>d_originalName := ''renamed.pdf'', d_pageCount := Some 12\<rparr>)"
proof -
  let ?d1 = "mk_doc ''d1'' ''b.pdf'' ''2024-01-01'' Processing"
  let ?u = "no_updates\<lparr>u_originalName := Some ''renamed.pdf'', u_pageCount := Some (Some 12)\<rparr>"
  note rename = updateDocument_merges [of "''d1''" ?u example_store]
  have given: "u_id ?u = None" "u_filename ?u = None" "u_originalName ?u = Some ''renamed.pdf''"
    "u_fileSize ?u = None" "u_uploadedAt ?u = None" "u_status ?u = None" "u_summary ?u = None"
    "u_highlights ?u = None" "u_pageCount ?u = Some (Some 12)" "u_textContent ?u = None"
    by (simp_all add: no_updates_def)
  from rename have merged: "spread ?d1 ?u
      = ?d1\<lparr>d_originalName := ''renamed.pdf'', d_pageCount := Some 12\<rparr>"
    by (intro Document.equality) (simp_all add: given)
  from rename have docs: "documents (updateDocument ''d1'' ?u example_store)
      = map (\<lambda>d. if d_id d = ''d1'' then spread d ?u else d) (documents example_store)"
    by blast
  have cur: "currentDocument example_store = Some ?d1 \<and> d_id ?d1 = ''d1''"
    by (simp add: example_store_def mk_doc_def)
  with rename have cur': "currentDocument (updateDocument ''d1'' ?u example_store)
      = Some (spread ?d1 ?u)"
    by blast
  have renamed: "documents (updateDocument ''d1'' ?u example_store)
       = [?d1\<lparr>d_originalName := ''renamed.pdf'', d_pageCount := Some 12\<rparr>,
          mk_doc ''d2'' ''a.pdf'' ''2024-01-02'' Completed]"
    unfolding docs using merged by (simp add: example_store_def) (simp add: mk_doc_def)
  have status: "map_option d_status
       (currentDocument
          (updateDocument ''d1'' (no_updates\<lparr>u_status := Some Completed\<rparr>) example_store))
     = Some Completed
   \<and> mk_doc ''d1'' ''b.pdf'' ''2024-01-01'' Completed
       \<in> set (documents
               (updateDocument ''d1'' (no_updates\<lparr>u_status := Some Completed\<rparr>) example_store))
   \<and> ''d9'' \<notin> d_id ` set (documents example_store)
   \<and> documents (updateDocument ''d9'' (no_updates\<lparr>u_status := Some Completed\<rparr>) example_store)
       = documents example_store
   \<and> mk_doc ''d1'' ''b.pdf'' ''2024-01-01'' Processing \<in> set (documents example_store)"
    using updateDocument_merges [of "''d1''" "no_updates\<lparr>u_status := Some Completed\<rparr>" example_store]
      updateDocument_merges [of "''d9''" "no_updates\<lparr>u_status := Some Completed\<rparr>" example_store]
    by (simp add: example_store_def mk_doc_def spread_def override_def no_updates_def)
  from cur status renamed cur' merged show ?thesis
    by simp
qed

text \<open>
  Claim C10. For every store state, \<open>updateDocument\<close> keeps the number of documents and
  their positions: the document at each position is the old one, merged with the updates
  when its identifier matches; \<open>currentSummary\<close>, \<open>processingStatus\<close>, \<open>isLoading\<close>
  and \<open>error\<close> stay as they were.
\<close>

theorem updateDocument_frame:
  "length (documents (updateDocument i u s)) = length (documents s)
   \<and> (\<forall>k < length (documents s).
         documents (updateDocument i u s) ! k
           = (if d_id (documents s ! k) = i then spread (documents s ! k) u
              else documents s ! k))
   \<and> currentSummary (updateDocument i u s) = currentSummary s
   \<and> processingStatus (updateDocument i u s) = processingStatus s
   \<and> isLoading (updateDocument i u s) = isLoading s
   \<and> error (updateDocument i u s) = error s"
  by (simp add: updateDocument_def)

theorem updateDocument_frame_witness:
  "(1::nat) < length (documents example_store)
   \<and> documents (updateDocument ''d1'' (no_updates\<lparr>u_status := Some Completed\<rparr>) example_store) ! 1
      = mk_doc ''d2'' ''a.pdf'' ''2024-01-02'' Completed
   \<and> documents (updateDocument ''d1'' (no_updates\<lparr>u_status := Some Completed\<rparr>) example_store) ! 0
      = mk_doc ''d1'' ''b.pdf'' ''2024-01-01'' Completed"
  using updateDocument_frame [of "''d1''" "no_updates\<lparr>u_status := Some Completed\<rparr>" example_store]
  by (simp add: example_store_def mk_doc_def spread_def override_def no_updates_def)

section \<open>The event loop and the upload loop\<close>

lemma advance_to_Nil: "timers w = [] \<Longrightarrow> advance_to t w = w\<lparr>now := max (now w) t\<rparr>"
  by (simp add: advance_to.simps)

lemma advance_to_Cons:
  "timers w = x # rest \<Longrightarrow>
   advance_to t w =
     (if fst x \<le> t
      then advance_to t (fire (snd x) (w\<lparr>now := max (now w) (fst x), timers := rest\<rparr>))
      else w\<lparr>now := max (now w) t\<rparr>)"
  by (subst advance_to.simps) simp

text \<open>A loop rule for the event loop: an invariant of the firing step holds at the end.\<close>

lemma advance_to_rule:
  assumes "I w"
    and step: "\<And>v x rest. I v \<Longrightarrow> timers v = x # rest \<Longrightarrow> fst x \<le> t \<Longrightarrow>
                 I (fire (snd x) (v\<lparr>now := max (now v) (fst x), timers := rest\<rparr>))"
    and fin: "\<And>v. I v \<Longrightarrow> (case timers v of [] \<Rightarrow> True | x # rest \<Rightarrow> t < fst x) \<Longrightarrow>
                 Q (v\<lparr>now := max (now v) t\<rparr>)"
  shows "Q (advance_to t w)"
  using assms
proof (induction t w rule: advance_to.induct)
  case (1 t w)
  note inv = \<open>I w\<close> and step = 1(3) and fin = 1(4)
  show ?case
  proof (cases "timers w")
    case Nil
    have "Q (w\<lparr>now := max (now w) t\<rparr>)"
      by (rule fin [OF inv]) (simp add: Nil)
    then show ?thesis
      by (simp only: advance_to_Nil [OF Nil])
  next
    case (Cons x rest)
    show ?thesis
    proof (cases "fst x \<le> t")
      case True
      have "I (fire (snd x) (w\<lparr>now := max (now w) (fst x), timers := rest\<rparr>))"
        by (rule step [OF inv Cons True])
      then have "Q (advance_to t (fire (snd x) (w\<lparr>now := max (now w) (fst x), timers := rest\<rparr>)))"
        by (rule 1(1) [OF Cons True _ step fin])
      then show ?thesis
        by (simp only: advance_to_Cons [OF Cons] True if_True)
    next
      case False
      have "Q (w\<lparr>now := max (now w) t\<rparr>)"
        by (rule fin [OF inv]) (use False in \<open>simp add: Cons\<close>)
      then show ?thesis
        by (simp only: advance_to_Cons [OF Cons] False if_False)
    qed
  qed
qed

lemma fire_frame:
  "store (fire a w) = store w \<and> toasts (fire a w) = toasts w \<and> calls (fire a w) = calls w
   \<and> now (fire a w) = now w"
  by (cases a) simp_all

lemma advance_to_frame:
  "store (advance_to t w) = store w \<and> toasts (advance_to t w) = toasts w
   \<and> calls (advance_to t w) = calls w"
  by (rule advance_to_rule [where I = "\<lambda>v. store v = store w \<and> toasts v = toasts w \<and> calls v = calls w"])
     (simp_all add: fire_frame)

lemma set_schedule: "set (schedule x ts) = insert x (set ts)"
  by (induction ts) auto

lemma sorted_schedule: "sorted (map fst ts) \<Longrightarrow> sorted (map fst (schedule x ts))"
  by (induction ts) (auto simp: set_schedule)

lemma filter_schedule_other: "\<not> P x \<Longrightarrow> filter P (schedule x ts) = filter P ts"
  by (induction ts) auto

lemma filter_schedule_same:
  "sorted (map fst ts) \<Longrightarrow> P x \<Longrightarrow> filter P (schedule x ts) = schedule x (filter P ts)"
proof (induction ts)
  case Nil
  then show ?case by simp
next
  case (Cons y ys)
  have later: "schedule x (filter P ys) = x # filter P ys" if "fst x < fst y"
  proof (cases "filter P ys")
    case Nil
    then show ?thesis by simp
  next
    case (Cons z zs)
    then have "z \<in> set (filter P ys)"
      by simp
    then have "z \<in> set ys"
      by simp
    with Cons.prems(1) have "fst y \<le> fst z" by auto
    with that Cons show ?thesis by simp
  qed
  from Cons show ?case
    by (auto simp: later)
qed


lemma advance_to_past:
  assumes "\<forall>x \<in> set (timers w). t < fst x"
  shows "advance_to t w = w\<lparr>now := max (now w) t\<rparr>"
proof (cases "timers w")
  case Nil
  then show ?thesis by (rule advance_to_Nil)
next
  case (Cons x rest)
  with assms have "\<not> fst x \<le> t" by auto
  with Cons show ?thesis by (simp add: advance_to_Cons)
qed

lemma entries_of_map:
  assumes "\<And>u. up_file (h u) = up_file u"
  shows "entries_of f (w\<lparr>uploads := map h (uploads w)\<rparr>) = map h (entries_of f w)"
  using assms by (simp add: entries_of_def filter_map o_def)

lemma filter_map_other:
  assumes "\<And>u. up_file u = f \<Longrightarrow> h u = u" and "\<And>u. up_file (h u) = up_file u"
  shows "filter (\<lambda>u. up_file u = f) (map h us) = filter (\<lambda>u. up_file u = f) us"
  using assms by (induction us) auto

lemma entries_of_fire_other:
  "timer_file a \<noteq> f \<Longrightarrow> entries_of f (fire a w) = entries_of f w"
proof (cases a)
  case (MarkCompleted g)
  assume "timer_file a \<noteq> f"
  with MarkCompleted have "g \<noteq> f" by simp
  then have "filter (\<lambda>u. up_file u = f) (set_status g Completed (uploads w))
             = filter (\<lambda>u. up_file u = f) (uploads w)"
    unfolding set_status_def by (intro filter_map_other) auto
  with MarkCompleted show ?thesis by (simp add: entries_of_def)
next
  case (RemoveUpload g)
  assume "timer_file a \<noteq> f"
  with RemoveUpload have "g \<noteq> f" by simp
  then have "filter (\<lambda>u. up_file u = f) (filter (\<lambda>u. up_file u \<noteq> g) (uploads w))
             = filter (\<lambda>u. up_file u = f) (uploads w)"
    by (induction "uploads w") (auto intro: filter_cong)
  with RemoveUpload show ?thesis by (simp add: entries_of_def)
qed

lemma timers_of_fire_other:
  "timer_file a \<noteq> f \<Longrightarrow> timers_of f (fire a w) = timers_of f w"
  by (cases a) (simp_all add: timers_of_def filter_schedule_other)

lemma timers_sound_fire:
  assumes "timers_sound v" and "timers v = x # rest"
  shows "timers_sound (fire (snd x) (v\<lparr>now := max (now v) (fst x), timers := rest\<rparr>))"
    and "now (fire (snd x) (v\<lparr>now := max (now v) (fst x), timers := rest\<rparr>)) = fst x"
proof -
  from assms have le: "now v \<le> fst x" and rest: "sorted (map fst rest)"
    and after: "\<forall>y \<in> set rest. fst x \<le> fst y"
    by (auto simp: timers_sound_def)
  from le have m: "max (now v) (fst x) = fst x" by simp
  show "now (fire (snd x) (v\<lparr>now := max (now v) (fst x), timers := rest\<rparr>)) = fst x"
    by (simp add: fire_frame m)
  show "timers_sound (fire (snd x) (v\<lparr>now := max (now v) (fst x), timers := rest\<rparr>))"
    using rest after
    by (cases "snd x") (auto simp: timers_sound_def m sorted_schedule set_schedule)
qed


lemma status_after_set_status:
  "map up_status (filter (\<lambda>u. up_file u = f) (set_status f st us))
     = replicate (length (filter (\<lambda>u. up_file u = f) us)) st"
  by (induction us) (auto simp: set_status_def)

lemma phase_fire:
  assumes ph: "phase f t0 n v" and tv: "timers v = x # rest"
  shows "phase f t0 n (fire (snd x) (v\<lparr>now := max (now v) (fst x), timers := rest\<rparr>))"
    (is "phase f t0 n ?v'")
proof -
  from ph have sound: "timers_sound v"
    by (simp add: phase_def)
  note sound' = timers_sound_fire [OF sound tv]
  from sound tv have le: "now v \<le> fst x" and rest: "sorted (map fst rest)"
    and after: "\<forall>y \<in> set rest. fst x \<le> fst y"
    by (auto simp: timers_sound_def)
  show ?thesis
  proof (cases "timer_file (snd x) = f")
    case False
    then have ents: "entries_of f ?v' = entries_of f v"
      by (simp add: entries_of_fire_other) (simp add: entries_of_def)
    from False have tms: "timers_of f ?v' = timers_of f v"
      by (simp add: timers_of_fire_other) (simp add: timers_of_def tv)
    have bound: "fst x \<le> d" if "timers_of f v = [(d, a)]" for d a
    proof -
      from that have "(d, a) \<in> set (timers_of f v)" by simp
      then have "(d, a) \<in> set (timers v)" and "timer_file a = f"
        by (auto simp: timers_of_def)
      with False tv have "(d, a) \<in> set rest" by auto
      with after show ?thesis by auto
    qed
    from ph le show ?thesis
      unfolding phase_def ents tms sound'(2)
      using sound'(1) bound by auto
  next
    case True
    then have tms: "timers_of f v = x # filter (\<lambda>y. timer_file (snd y) = f) rest"
      by (simp add: timers_of_def tv)
    from ph consider
      (run) "timers_of f v = [(t0 + 1000, MarkCompleted f)]"
           "map up_status (entries_of f v) = replicate n Processing"
      | (fin) "timers_of f v = [(t0 + 4000, RemoveUpload f)]"
           "map up_status (entries_of f v) = replicate n Completed"
      | (gone) "timers_of f v = []"
      by (auto simp: phase_def)
    then show ?thesis
    proof cases
      case run
      with tms have x: "x = (t0 + 1000, MarkCompleted f)"
        and none: "filter (\<lambda>y. timer_file (snd y) = f) rest = []"
        by simp_all
      from run(2) have n: "length (entries_of f v) = n"
        by (metis length_map length_replicate)
      have "timers_of f ?v' = [(t0 + 4000, RemoveUpload f)]"
        using le by (simp add: x timers_of_def filter_schedule_same [OF rest] none max_def)
      moreover have "map up_status (entries_of f ?v') = replicate n Completed"
        using n by (simp add: x entries_of_def status_after_set_status)
      ultimately show ?thesis
        unfolding phase_def using sound' by (simp add: x)
    next
      case fin
      with tms have x: "x = (t0 + 4000, RemoveUpload f)"
        and none: "filter (\<lambda>y. timer_file (snd y) = f) rest = []"
        by simp_all
      have "timers_of f ?v' = []"
        by (simp add: x timers_of_def none)
      moreover have "entries_of f ?v' = []"
        by (simp add: x entries_of_def)
      ultimately show ?thesis
        unfolding phase_def using sound' by (simp add: x)
    next
      case gone
      with tms show ?thesis by simp
    qed
  qed
qed

lemma phase_advance_to:
  assumes "phase f t0 n w"
  shows "phase f t0 n (advance_to t w) \<and> (\<forall>x \<in> set (timers (advance_to t w)). t < fst x)
         \<and> t \<le> now (advance_to t w)"
proof (rule advance_to_rule [where I = "phase f t0 n"])
  show "phase f t0 n w" by fact
next
  fix v x rest
  assume "phase f t0 n v" and "timers v = x # rest"
  then show "phase f t0 n (fire (snd x) (v\<lparr>now := max (now v) (fst x), timers := rest\<rparr>))"
    by (rule phase_fire)
next
  fix v
  assume ph: "phase f t0 n v"
    and hd: "case timers v of [] \<Rightarrow> True | x # rest \<Rightarrow> t < fst x"
  let ?v = "v\<lparr>now := max (now v) t\<rparr>"
  from ph have sound: "timers_sound v" by (simp add: phase_def)
  have later: "\<forall>x \<in> set (timers v). t < fst x"
  proof (cases "timers v")
    case Nil
    then show ?thesis by simp
  next
    case (Cons y ys)
    with sound hd show ?thesis
      by (auto simp: timers_sound_def)
  qed
  have f_later: "t < d" if "timers_of f v = [(d, a)]" for d a
  proof -
    from that have "(d, a) \<in> set (timers_of f v)" by simp
    then have "(d, a) \<in> set (timers v)" by (simp add: timers_of_def)
    with later show ?thesis by auto
  qed
  have same: "timers_of f ?v = timers_of f v" "entries_of f ?v = entries_of f v"
    by (simp_all add: timers_of_def entries_of_def)
  have "timers_sound ?v"
    using sound later by (auto simp: timers_sound_def)
  moreover have "phase f t0 n ?v"
    using ph f_later \<open>timers_sound ?v\<close> unfolding phase_def same
    by (auto dest: f_later)
  ultimately show "phase f t0 n ?v \<and> (\<forall>x \<in> set (timers ?v). t < fst x) \<and> t \<le> now ?v"
    using later by simp
qed


lemma sound_advance_to:
  assumes "timers_sound w"
  shows "timers_sound (advance_to t w) \<and> (\<forall>x \<in> set (timers (advance_to t w)). t < fst x)
         \<and> now (advance_to t w) = max (now w) t"
proof (rule advance_to_rule
    [where I = "\<lambda>v. timers_sound v \<and> now w \<le> now v \<and> now v \<le> max (now w) t"])
  show "timers_sound w \<and> now w \<le> now w \<and> now w \<le> max (now w) t"
    using assms by simp
next
  fix v x rest
  assume inv: "timers_sound v \<and> now w \<le> now v \<and> now v \<le> max (now w) t"
    and tv: "timers v = x # rest" and due: "fst x \<le> t"
  let ?v' = "fire (snd x) (v\<lparr>now := max (now v) (fst x), timers := rest\<rparr>)"
  from inv tv have "now v \<le> fst x"
    by (simp add: timers_sound_def)
  with inv due timers_sound_fire [OF _ tv, of ]
  show "timers_sound ?v' \<and> now w \<le> now ?v' \<and> now ?v' \<le> max (now w) t"
    by auto
next
  fix v
  assume inv: "timers_sound v \<and> now w \<le> now v \<and> now v \<le> max (now w) t"
    and hd: "case timers v of [] \<Rightarrow> True | x # rest \<Rightarrow> t < fst x"
  let ?v = "v\<lparr>now := max (now v) t\<rparr>"
  have later: "\<forall>x \<in> set (timers v). t < fst x"
  proof (cases "timers v")
    case Nil
    then show ?thesis by simp
  next
    case (Cons y ys)
    with inv hd show ?thesis
      by (auto simp: timers_sound_def)
  qed
  with inv show "timers_sound ?v \<and> (\<forall>x \<in> set (timers ?v). t < fst x)
         \<and> now ?v = max (now w) t"
    by (auto simp: timers_sound_def)
qed

lemma quiet_advance_to:
  assumes "timers_sound w" and "quiet w"
  shows "quiet (advance_to t w)"
proof (cases "t \<le> now w")
  case True
  with assms(2) have "\<forall>x \<in> set (timers w). t < fst x"
    by (auto simp: quiet_def)
  then have "advance_to t w = w\<lparr>now := max (now w) t\<rparr>"
    by (rule advance_to_past)
  with True assms(2) show ?thesis
    by (simp add: quiet_def max_def)
next
  case False
  with sound_advance_to [OF assms(1), of t] show ?thesis
    by (auto simp: quiet_def)
qed

lemma absent_advance_to:
  assumes "timers_of f w = []"
  shows "timers_of f (advance_to t w) = [] \<and> entries_of f (advance_to t w) = entries_of f w"
proof (rule advance_to_rule
    [where I = "\<lambda>v. timers_of f v = [] \<and> entries_of f v = entries_of f w"])
  show "timers_of f w = [] \<and> entries_of f w = entries_of f w"
    using assms by simp
next
  fix v x rest
  assume inv: "timers_of f v = [] \<and> entries_of f v = entries_of f w"
    and tv: "timers v = x # rest"
  let ?v0 = "v\<lparr>now := max (now v) (fst x), timers := rest\<rparr>"
  from inv tv have other: "timer_file (snd x) \<noteq> f"
    and rest: "filter (\<lambda>y. timer_file (snd y) = f) rest = []"
    by (auto simp: timers_of_def split: if_splits)
  have "timers_of f (fire (snd x) ?v0) = timers_of f ?v0"
    by (rule timers_of_fire_other [OF other])
  moreover have "entries_of f (fire (snd x) ?v0) = entries_of f ?v0"
    by (rule entries_of_fire_other [OF other])
  ultimately show "timers_of f (fire (snd x) ?v0) = []
      \<and> entries_of f (fire (snd x) ?v0) = entries_of f w"
    using inv rest by (simp add: timers_of_def entries_of_def)
next
  fix v
  assume "timers_of f v = [] \<and> entries_of f v = entries_of f w"
  then show "timers_of f (v\<lparr>now := max (now v) t\<rparr>) = []
      \<and> entries_of f (v\<lparr>now := max (now v) t\<rparr>) = entries_of f w"
    by (simp add: timers_of_def entries_of_def)
qed

text \<open>What the loop does for the other files keeps a property that the event loop keeps.\<close>

lemma report_progress_keeps:
  assumes adv: "\<And>t v. I v \<Longrightarrow> I (advance_to t v)"
    and prog: "\<And>p v. I v \<Longrightarrow> I (on_progress g p v)"
    and "I w"
  shows "I (report_progress g evs w)"
  using \<open>I w\<close>
proof (induction evs arbitrary: w)
  case Nil
  then show ?case by simp
next
  case (Cons ev evs)
  from Cons.prems have "I (on_progress g (snd ev) (advance_to (now w + fst ev) w))"
    by (intro prog adv)
  then show ?case
    by (simp add: Cons.IH)
qed

lemma awaited_keeps:
  assumes adv: "\<And>t v. I v \<Longrightarrow> I (advance_to t v)"
    and prog: "\<And>p v. I v \<Longrightarrow> I (on_progress (up_file u) p v)"
    and log: "\<And>evs v. I v \<Longrightarrow> I (v\<lparr>calls := evs\<rparr>)"
    and "I w"
  shows "I (awaited api u w)"
proof -
  let ?w1 = "w\<lparr>calls := calls w @ [Issued (up_file u)]\<rparr>"
  let ?w2 = "report_progress (up_file u) (progress_events (api (up_file u))) ?w1"
  let ?w3 = "advance_to (now ?w2 + settle_delay (api (up_file u))) ?w2"
  have "I ?w1" by (rule log) fact
  then have "I ?w2" by (intro report_progress_keeps [where I = I] adv prog)
  then have "I ?w3" by (rule adv)
  then have "I (?w3\<lparr>calls := calls ?w3 @ [settled api (up_file u)]\<rparr>)" by (rule log)
  then show ?thesis
    by (simp add: awaited_def Let_def)
qed

lemma upload_one_keeps:
  assumes adv: "\<And>t v. I v \<Longrightarrow> I (advance_to t v)"
    and prog: "\<And>p v. I v \<Longrightarrow> I (on_progress (up_file u) p v)"
    and res: "\<And>d v. I v \<Longrightarrow> I (upload_resolved u d v)"
    and rej: "\<And>e v. I v \<Longrightarrow> I (upload_rejected u e v)"
    and log: "\<And>evs v. I v \<Longrightarrow> I (v\<lparr>calls := evs\<rparr>)"
    and "I w"
  shows "I (upload_one api u w)"
proof -
  have "I (awaited api u w)"
    by (rule awaited_keeps [where I = I, OF adv prog log \<open>I w\<close>])
  then show ?thesis
    by (auto simp: upload_one_def res rej split: sum.splits)
qed

lemma upload_loop_keeps:
  assumes adv: "\<And>t v. I v \<Longrightarrow> I (advance_to t v)"
    and prog: "\<And>g p v. g \<noteq> f \<Longrightarrow> I v \<Longrightarrow> I (on_progress g p v)"
    and res: "\<And>u d v. up_file u \<noteq> f \<Longrightarrow> I v \<Longrightarrow> I (upload_resolved u d v)"
    and rej: "\<And>u e v. up_file u \<noteq> f \<Longrightarrow> I v \<Longrightarrow> I (upload_rejected u e v)"
    and log: "\<And>evs v. I v \<Longrightarrow> I (v\<lparr>calls := evs\<rparr>)"
    and "I w" and "\<forall>u \<in> set us. up_file u \<noteq> f"
  shows "I (upload_loop api us w)"
  using \<open>I w\<close> \<open>\<forall>u \<in> set us. up_file u \<noteq> f\<close>
proof (induction us arbitrary: w)
  case Nil
  then show ?case by simp
next
  case (Cons u us)
  from Cons.prems have other: "up_file u \<noteq> f" by simp
  have "I (upload_one api u w)"
    by (rule upload_one_keeps [OF adv prog [OF other] res [OF other] rej [OF other] log])
       (use Cons.prems in auto)
  with Cons show ?case by simp
qed


lemma status_after_mark:
  assumes "\<And>u. up_file (h u) = up_file u" and "\<And>u. up_status (h u) = st"
  shows "map up_status (filter (\<lambda>u. up_file u = f)
            (map (\<lambda>u. if up_file u = f then h u else u) us))
         = replicate (length (filter (\<lambda>u. up_file u = f) us)) st"
  using assms by (induction us) auto

lemma phase_quiet_eq:
  assumes "timers v' = timers v" and "now v' = now v" and "entries_of f v' = entries_of f v"
  shows "(phase f t0 n v' \<and> quiet v') = (phase f t0 n v \<and> quiet v)"
  using assms by (simp add: phase_def quiet_def timers_sound_def timers_of_def)

lemma phase_quiet_schedule_other:
  assumes "phase f t0 n v" and "quiet v"
    and "timers v' = schedule (now v + d, a) (timers v)" and "0 < d" and "timer_file a \<noteq> f"
    and "now v' = now v" and "entries_of f v' = entries_of f v"
  shows "phase f t0 n v' \<and> quiet v'"
proof -
  from assms(1) have sound: "timers_sound v"
    by (simp add: phase_def)
  have "timers_of f v' = timers_of f v"
    using assms(3,5) by (simp add: timers_of_def filter_schedule_other)
  moreover have "timers_sound v'"
    using sound assms(3,6) by (auto simp: timers_sound_def sorted_schedule set_schedule)
  moreover have "quiet v'"
    using assms(2,3,4,6) by (auto simp: quiet_def set_schedule)
  ultimately show ?thesis
    using assms(1,6,7) by (simp add: phase_def)
qed

lemma entries_of_on_progress: "g \<noteq> f \<Longrightarrow> entries_of f (on_progress g p v) = entries_of f v"
  unfolding entries_of_def on_progress_def
  by (simp, intro filter_map_other) auto

lemma entries_of_resolved:
  "up_file u \<noteq> f \<Longrightarrow> entries_of f (upload_resolved u d v) = entries_of f v"
  unfolding entries_of_def upload_resolved_def
  by (simp, intro filter_map_other) auto

lemma entries_of_rejected:
  "up_file u \<noteq> f \<Longrightarrow> entries_of f (upload_rejected u e v) = entries_of f v"
  unfolding entries_of_def upload_rejected_def
  by (simp, intro filter_map_other) auto

lemma phase_quiet_loop:
  assumes "phase f t0 n w \<and> quiet w" and "\<forall>u \<in> set us. up_file u \<noteq> f"
  shows "phase f t0 n (upload_loop api us w) \<and> quiet (upload_loop api us w)"
proof (rule upload_loop_keeps [where I = "\<lambda>v. phase f t0 n v \<and> quiet v" and f = f])
  fix t v assume "phase f t0 n v \<and> quiet v"
  then show "phase f t0 n (advance_to t v) \<and> quiet (advance_to t v)"
    using phase_advance_to [of f t0 n v t] quiet_advance_to [of v t]
    by (simp add: phase_def)
next
  fix g p and v :: World assume "g \<noteq> f" and "phase f t0 n v \<and> quiet v"
  then show "phase f t0 n (on_progress g p v) \<and> quiet (on_progress g p v)"
    using phase_quiet_eq [where v' = "on_progress g p v" and v = v and f = f and n = n]
    by (simp add: entries_of_on_progress) (simp add: on_progress_def)
next
  fix u :: UploadProgress and d v assume "up_file u \<noteq> f" and "phase f t0 n v \<and> quiet v"
  then show "phase f t0 n (upload_resolved u d v) \<and> quiet (upload_resolved u d v)"
    by (intro phase_quiet_schedule_other [where v = v and d = 1000 and a = "MarkCompleted (up_file u)"])
       (simp_all add: entries_of_resolved, simp_all add: upload_resolved_def)
next
  fix u :: UploadProgress and e v assume "up_file u \<noteq> f" and "phase f t0 n v \<and> quiet v"
  then show "phase f t0 n (upload_rejected u e v) \<and> quiet (upload_rejected u e v)"
    using phase_quiet_eq [where v' = "upload_rejected u e v" and v = v and f = f and n = n]
    by (simp add: entries_of_rejected) (simp add: upload_rejected_def)
next
  fix evs and v :: World assume "phase f t0 n v \<and> quiet v"
  then show "phase f t0 n (v\<lparr>calls := evs\<rparr>) \<and> quiet (v\<lparr>calls := evs\<rparr>)"
    using phase_quiet_eq [where v' = "v\<lparr>calls := evs\<rparr>" and v = v and f = f and n = n]
    by (simp add: entries_of_def)
qed (use assms in auto)

lemma absent_loop:
  assumes "timers_of f w = []" and "\<forall>u \<in> set us. up_file u \<noteq> f"
  shows "timers_of f (upload_loop api us w) = []
         \<and> entries_of f (upload_loop api us w) = entries_of f w"
proof (rule upload_loop_keeps
    [where I = "\<lambda>v. timers_of f v = [] \<and> entries_of f v = entries_of f w" and f = f])
  fix t v assume "timers_of f v = [] \<and> entries_of f v = entries_of f w"
  then show "timers_of f (advance_to t v) = [] \<and> entries_of f (advance_to t v) = entries_of f w"
    using absent_advance_to [of f v t] by simp
next
  fix g p and v :: World assume "g \<noteq> f" and "timers_of f v = [] \<and> entries_of f v = entries_of f w"
  then show "timers_of f (on_progress g p v) = []
      \<and> entries_of f (on_progress g p v) = entries_of f w"
    by (simp add: entries_of_on_progress) (simp add: on_progress_def timers_of_def)
next
  fix u :: UploadProgress and d v assume "up_file u \<noteq> f" and "timers_of f v = [] \<and> entries_of f v = entries_of f w"
  then show "timers_of f (upload_resolved u d v) = []
      \<and> entries_of f (upload_resolved u d v) = entries_of f w"
    by (simp add: entries_of_resolved)
       (simp add: upload_resolved_def timers_of_def filter_schedule_other)
next
  fix u :: UploadProgress and e v assume "up_file u \<noteq> f" and "timers_of f v = [] \<and> entries_of f v = entries_of f w"
  then show "timers_of f (upload_rejected u e v) = []
      \<and> entries_of f (upload_rejected u e v) = entries_of f w"
    by (simp add: entries_of_rejected) (simp add: upload_rejected_def timers_of_def)
next
  fix evs and v :: World assume "timers_of f v = [] \<and> entries_of f v = entries_of f w"
  then show "timers_of f (v\<lparr>calls := evs\<rparr>) = [] \<and> entries_of f (v\<lparr>calls := evs\<rparr>) = entries_of f w"
    by (simp add: entries_of_def timers_of_def)
qed (use assms in auto)


lemma own_await:
  assumes "timers_sound w" and "quiet w" and "timers_of f w = []" and "up_file u = f"
  shows "timers_sound (awaited api u w) \<and> quiet (awaited api u w)
         \<and> timers_of f (awaited api u w) = []
         \<and> length (entries_of f (awaited api u w)) = length (entries_of f w)"
proof (rule awaited_keeps
    [where I = "\<lambda>v. timers_sound v \<and> quiet v \<and> timers_of f v = []
                  \<and> length (entries_of f v) = length (entries_of f w)"])
  fix t v
  assume "timers_sound v \<and> quiet v \<and> timers_of f v = []
          \<and> length (entries_of f v) = length (entries_of f w)"
  then show "timers_sound (advance_to t v) \<and> quiet (advance_to t v)
      \<and> timers_of f (advance_to t v) = []
      \<and> length (entries_of f (advance_to t v)) = length (entries_of f w)"
    using sound_advance_to [of v t] quiet_advance_to [of v t] absent_advance_to [of f v t]
    by simp
next
  fix p and v :: World
  assume inv: "timers_sound v \<and> quiet v \<and> timers_of f v = []
          \<and> length (entries_of f v) = length (entries_of f w)"
  have "entries_of f (on_progress (up_file u) p v)
        = map (\<lambda>x. if up_file x = up_file u then x\<lparr>up_progress := p\<rparr> else x) (entries_of f v)"
    unfolding on_progress_def by (rule entries_of_map) simp
  with inv show "timers_sound (on_progress (up_file u) p v) \<and> quiet (on_progress (up_file u) p v)
      \<and> timers_of f (on_progress (up_file u) p v) = []
      \<and> length (entries_of f (on_progress (up_file u) p v)) = length (entries_of f w)"
    by (simp add: timers_sound_def quiet_def timers_of_def on_progress_def)
next
  fix evs and v :: World
  assume "timers_sound v \<and> quiet v \<and> timers_of f v = []
          \<and> length (entries_of f v) = length (entries_of f w)"
  then show "timers_sound (v\<lparr>calls := evs\<rparr>) \<and> quiet (v\<lparr>calls := evs\<rparr>)
      \<and> timers_of f (v\<lparr>calls := evs\<rparr>) = []
      \<and> length (entries_of f (v\<lparr>calls := evs\<rparr>)) = length (entries_of f w)"
    by (simp add: timers_sound_def quiet_def timers_of_def entries_of_def)
qed (use assms in simp)

lemma resolved_phase:
  assumes "timers_sound v" and "quiet v" and "timers_of f v = []" and "up_file u = f"
  shows "phase f (now v) (length (entries_of f v)) (upload_resolved u d v)"
    and "quiet (upload_resolved u d v)"
    and "map up_status (entries_of f (upload_resolved u d v))
         = replicate (length (entries_of f v)) Processing"
    and "now (upload_resolved u d v) = now v"
proof -
  let ?v' = "upload_resolved u d v"
  from assms(1) have sorted: "sorted (map fst (timers v))"
    by (simp add: timers_sound_def)
  show now: "now ?v' = now v"
    by (simp add: upload_resolved_def)
  show ents: "map up_status (entries_of f ?v') = replicate (length (entries_of f v)) Processing"
    unfolding entries_of_def upload_resolved_def assms(4)
    by (simp, intro status_after_mark) auto
  have tms: "timers_of f ?v' = [(now v + 1000, MarkCompleted f)]"
    using assms(3,4)
    by (simp add: upload_resolved_def timers_of_def filter_schedule_same [OF sorted])
  have sound: "timers_sound ?v'"
    using assms(1) by (auto simp: timers_sound_def upload_resolved_def sorted_schedule set_schedule)
  show "quiet ?v'"
    using assms(2) by (auto simp: quiet_def upload_resolved_def set_schedule)
  show "phase f (now v) (length (entries_of f v)) ?v'"
    unfolding phase_def using sound tms ents now by simp
qed

lemma rejected_absent:
  assumes "timers_of f v = []" and "up_file u = f"
  shows "timers_of f (upload_rejected u e v) = []"
    and "map up_status (entries_of f (upload_rejected u e v))
         = replicate (length (entries_of f v)) Error"
proof -
  show "timers_of f (upload_rejected u e v) = []"
    using assms(1) by (simp add: upload_rejected_def timers_of_def)
  show "map up_status (entries_of f (upload_rejected u e v))
         = replicate (length (entries_of f v)) Error"
    unfolding entries_of_def upload_rejected_def assms(2)
    by (simp, intro status_after_mark) auto
qed

lemma phase_by_clock:
  assumes "phase f t0 n v" and "quiet v"
  shows "now v < t0 + 1000 \<longrightarrow> map up_status (entries_of f v) = replicate n Processing"
    and "t0 + 1000 \<le> now v \<and> now v < t0 + 4000
         \<longrightarrow> map up_status (entries_of f v) = replicate n Completed"
    and "t0 + 4000 \<le> now v \<longrightarrow> entries_of f v = []"
proof -
  have ahead: "now v < d" if "timers_of f v = [(d, a)]" for d a
  proof -
    from that have "(d, a) \<in> set (timers_of f v)" by simp
    then have "(d, a) \<in> set (timers v)" by (simp add: timers_of_def)
    with assms(2) show ?thesis by (auto simp: quiet_def)
  qed
  from assms(1) show "now v < t0 + 1000 \<longrightarrow> map up_status (entries_of f v) = replicate n Processing"
    by (auto simp: phase_def)
  from assms(1) show "t0 + 1000 \<le> now v \<and> now v < t0 + 4000
         \<longrightarrow> map up_status (entries_of f v) = replicate n Completed"
    by (auto simp: phase_def dest: ahead)
  from assms(1) show "t0 + 4000 \<le> now v \<longrightarrow> entries_of f v = []"
    by (auto simp: phase_def dest: ahead)
qed

lemma sound_quiet_loop:
  assumes "timers_sound w \<and> quiet w"
  shows "timers_sound (upload_loop api us w) \<and> quiet (upload_loop api us w)"
  using assms
proof (induction us arbitrary: w)
  case Nil
  then show ?case by simp
next
  case (Cons u us)
  have "timers_sound (upload_one api u w) \<and> quiet (upload_one api u w)"
  proof (rule upload_one_keeps [where I = "\<lambda>v. timers_sound v \<and> quiet v"])
    fix t v assume "timers_sound v \<and> quiet v"
    then show "timers_sound (advance_to t v) \<and> quiet (advance_to t v)"
      using sound_advance_to [of v t] quiet_advance_to [of v t] by simp
  next
    fix d v assume "timers_sound v \<and> quiet v"
    then show "timers_sound (upload_resolved u d v) \<and> quiet (upload_resolved u d v)"
      by (auto simp: timers_sound_def quiet_def upload_resolved_def sorted_schedule set_schedule)
  qed (use Cons.prems in \<open>simp_all add: timers_sound_def quiet_def on_progress_def upload_rejected_def\<close>)
  then show ?case
    by (simp add: Cons.IH)
qed


text \<open>The states the component reaches are idle states with a sound timer queue.\<close>

lemma initial_world_quiet: "timers_sound initial_world \<and> quiet initial_world"
  by (simp add: initial_world_def timers_sound_def quiet_def)

lemma onDrop_quiet:
  assumes "timers_sound w \<and> quiet w"
  shows "timers_sound (onDrop isValidPDF api files w) \<and> quiet (onDrop isValidPDF api files w)"
  unfolding onDrop_def
  by (rule sound_quiet_loop)
     (use assms in \<open>simp add: start_uploads_def Let_def timers_sound_def quiet_def\<close>)

lemma advance_to_quiet:
  assumes "timers_sound w \<and> quiet w"
  shows "timers_sound (advance_to t w) \<and> quiet (advance_to t w)"
  using assms sound_advance_to [of w t] quiet_advance_to [of w t] by simp

subsection \<open>The example drop, step by step\<close>

lemma example_accepts: "accepts example_isValidPDF file_a" "accepts example_isValidPDF file_b"
  by (simp_all add: accepts_def reject_notice_def example_isValidPDF_def file_a_def file_b_def)

lemma dropped_eq:
  "dropped = \<lparr>uploads = [new_upload file_a, new_upload file_b], store = initial_store,
     toasts = [], timers = [], now = 0, calls = []\<rparr>"
  using example_accepts by (simp add: dropped_def start_uploads_def initial_world_def List.map_filter_simps accepts_def)

lemma up_file_new_upload: "up_file (new_upload file) = file"
  by (simp add: new_upload_def)

lemma files_differ: "file_a \<noteq> file_b" "file_b \<noteq> file_a"
  by (simp_all add: file_a_def file_b_def)

lemma example_api_a: "example_api file_a = \<lparr>progress_events = [(100, 50)], settle_delay = 100,
            result = Inr (mk_doc ''d3'' ''a.pdf'' ''2024-01-03'' Processing)\<rparr>"
  by (simp add: example_api_def)

lemma example_api_b: "example_api file_b = \<lparr>progress_events = [], settle_delay = 300,
            result = Inl (ErrorObject ''Network Error'')\<rparr>"
  by (simp add: example_api_def files_differ)

lemma after_first_upload: "upload_one example_api (new_upload file_a) dropped =
  \<lparr>uploads = [\<lparr>up_file = file_a, up_progress = 100, up_status = Processing, up_error = None\<rparr>,
       new_upload file_b], store = addDocument (mk_doc ''d3'' ''a.pdf'' ''2024-01-03'' Processing) initial_store,
     toasts = [ToastSuccess (f_name file_a @ '' uploaded successfully'')],
     timers = [(1200, MarkCompleted file_a)], now = 200,
     calls = [Issued file_a, Resolved file_a]\<rparr>"
  by (simp add: upload_one_def awaited_def Let_def dropped_eq example_api_a advance_to_Nil on_progress_def
      upload_resolved_def settled_def new_upload_def files_differ)


lemma after_second_upload: "upload_loop example_api [new_upload file_b]
     (upload_one example_api (new_upload file_a) dropped) =
  \<lparr>uploads = [\<lparr>up_file = file_a, up_progress = 100, up_status = Processing, up_error = None\<rparr>,
       \<lparr>up_file = file_b, up_progress = 0, up_status = Error, up_error = Some ''Network Error''\<rparr>],
     store = setError (Some ''Network Error'')
       (addDocument (mk_doc ''d3'' ''a.pdf'' ''2024-01-03'' Processing) initial_store),
     toasts = [ToastSuccess (f_name file_a @ '' uploaded successfully''),
               ToastError (''Failed to upload '' @ f_name file_b)],
     timers = [(1200, MarkCompleted file_a)], now = 500,
     calls = [Issued file_a, Resolved file_a, Issued file_b, Rejected file_b]\<rparr>"
  by (simp only: upload_loop.simps after_first_upload)
     (simp add: upload_one_def awaited_def Let_def example_api_b advance_to.simps
      upload_rejected_def settled_def new_upload_def files_differ error_message_def)

lemma example_clock:
  "map up_status (entries_of file_a (advance_to 1199 (upload_loop example_api [new_upload file_b]
     (upload_one example_api (new_upload file_a) dropped)))) = [Processing]"
  "now (advance_to 1199 (upload_loop example_api [new_upload file_b]
     (upload_one example_api (new_upload file_a) dropped))) = 1199"
  "now (advance_to 1200 (upload_loop example_api [new_upload file_b]
     (upload_one example_api (new_upload file_a) dropped))) = 1200"
  "now (advance_to 4199 (upload_loop example_api [new_upload file_b]
     (upload_one example_api (new_upload file_a) dropped))) = 4199"
  "now (advance_to 4200 (upload_loop example_api [new_upload file_b]
     (upload_one example_api (new_upload file_a) dropped))) = 4200"
  by (simp_all only: after_second_upload) (simp_all add: advance_to.simps entries_of_def files_differ set_status_def)



subsection \<open>The life of an upload entry\<close>

text \<open>
  Claim C7. Take a file none of whose timers is pending, in an idle state of the
  component, and let its upload be the next one of the loop. If the call resolves, the
  file's entries are set to processing; whatever the loop then does for other files and
  however long the component then idles, the entries are still processing while the
  clock is less than 1000 ms past the moment of resolving, completed from 1000 ms to
  less than 4000 ms past it, and removed from the list from 4000 ms on. If the call is
  rejected, the file's entries are set to error and stay in the list, unchanged, for
  ever. (Timers run exactly when they are due; the clock does reach every time \<open>t\<close>.)
\<close>

theorem upload_entry_lifecycle:
  fixes api :: "File \<Rightarrow> upload_outcome" and t :: nat and rest :: "UploadProgress list"
  assumes "timers_sound w" and "quiet w" and "timers_of f w = []" and "up_file u = f"
    and "\<forall>v \<in> set rest. up_file v \<noteq> f"
  defines "w1 \<equiv> upload_one api u w"
    and "n \<equiv> length (entries_of f w)"
  defines "w2 \<equiv> advance_to t (upload_loop api rest w1)"
  shows "(\<forall>doc. result (api f) = Inr doc \<longrightarrow>
            map up_status (entries_of f w1) = replicate n Processing
            \<and> (now w2 < now w1 + 1000
                 \<longrightarrow> map up_status (entries_of f w2) = replicate n Processing)
            \<and> (now w1 + 1000 \<le> now w2 \<and> now w2 < now w1 + 4000
                 \<longrightarrow> map up_status (entries_of f w2) = replicate n Completed)
            \<and> (now w1 + 4000 \<le> now w2 \<longrightarrow> entries_of f w2 = []))
         \<and> (\<forall>e. result (api f) = Inl e \<longrightarrow>
            map up_status (entries_of f w1) = replicate n Error
            \<and> entries_of f w2 = entries_of f w1)
         \<and> t \<le> now w2"
proof (intro conjI allI impI)
  let ?v = "awaited api u w"
  note aw = own_await [OF assms(1-4), of api]
  then have len: "length (entries_of f ?v) = n"
    by (simp add: n_def)
  {
    fix doc assume ok: "result (api f) = Inr doc"
    then have w1: "w1 = upload_resolved u doc ?v"
      by (simp add: w1_def upload_one_def assms(4))
    from aw have ph: "phase f (now ?v) n w1" and q: "quiet w1"
      and st: "map up_status (entries_of f w1) = replicate n Processing"
      and nw: "now w1 = now ?v"
      unfolding w1 using resolved_phase [of ?v f u doc] assms(4) len by simp_all
    show "map up_status (entries_of f w1) = replicate n Processing" by fact
    from ph q have "phase f (now ?v) n (upload_loop api rest w1) \<and> quiet (upload_loop api rest w1)"
      by (intro phase_quiet_loop) (use assms(5) in auto)
    then have "phase f (now w1) n w2" and "quiet w2"
      unfolding w2_def nw
      using phase_advance_to [of f "now ?v" n "upload_loop api rest w1" t]
        quiet_advance_to [of "upload_loop api rest w1" t]
      by (simp_all add: phase_def)
    note by_clock = phase_by_clock [OF this]
    { assume "now w2 < now w1 + 1000"
      with by_clock(1) show "map up_status (entries_of f w2) = replicate n Processing" by simp }
    { assume "now w1 + 1000 \<le> now w2 \<and> now w2 < now w1 + 4000"
      with by_clock(2) show "map up_status (entries_of f w2) = replicate n Completed" by simp }
    { assume "now w1 + 4000 \<le> now w2"
      with by_clock(3) show "entries_of f w2 = []" by simp }
  }
  {
    fix e assume bad: "result (api f) = Inl e"
    then have w1: "w1 = upload_rejected u e ?v"
      by (simp add: w1_def upload_one_def assms(4))
    from aw have none: "timers_of f w1 = []"
      and st: "map up_status (entries_of f w1) = replicate n Error"
      unfolding w1 using rejected_absent [of f ?v u e] assms(4) len by simp_all
    show "map up_status (entries_of f w1) = replicate n Error" by fact
    from none have "timers_of f (upload_loop api rest w1) = []
        \<and> entries_of f (upload_loop api rest w1) = entries_of f w1"
      by (intro absent_loop) (use assms(5) in auto)
    then show "entries_of f w2 = entries_of f w1"
      unfolding w2_def using absent_advance_to [of f "upload_loop api rest w1" t] by simp
  }
  have sq: "timers_sound w1 \<and> quiet w1"
  proof (cases "result (api f)")
    case (Inl e)
    with aw show ?thesis
      by (simp add: w1_def upload_one_def assms(4) upload_rejected_def timers_sound_def quiet_def)
  next
    case (Inr doc)
    with aw resolved_phase [of ?v f u doc] assms(4) show ?thesis
      by (simp add: w1_def upload_one_def phase_def)
  qed
  then have "timers_sound (upload_loop api rest w1)"
    using sound_quiet_loop [of w1 api rest] by simp
  then show "t \<le> now w2"
    unfolding w2_def using sound_advance_to [of "upload_loop api rest w1" t] by simp
qed

theorem upload_entry_lifecycle_witness:
  "timers_sound dropped \<and> quiet dropped \<and> timers_of file_a dropped = []
   \<and> up_file (new_upload file_a) = file_a
   \<and> file_a \<notin> up_file ` set [new_upload file_b]
   \<and> result (example_api file_a) = Inr (mk_doc ''d3'' ''a.pdf'' ''2024-01-03'' Processing)
   \<and> now (upload_one example_api (new_upload file_a) dropped) = 200
   \<and> map up_status (entries_of file_a (upload_one example_api (new_upload file_a) dropped))
       = [Processing]
   \<and> map up_status (entries_of file_a
         (advance_to 1199 (upload_loop example_api [new_upload file_b]
            (upload_one example_api (new_upload file_a) dropped)))) = [Processing]
   \<and> map up_status (entries_of file_a
         (advance_to 1200 (upload_loop example_api [new_upload file_b]
            (upload_one example_api (new_upload file_a) dropped)))) = [Completed]
   \<and> map up_status (entries_of file_a
         (advance_to 4199 (upload_loop example_api [new_upload file_b]
            (upload_one example_api (new_upload file_a) dropped)))) = [Completed]
   \<and> entries_of file_a
         (advance_to 4200 (upload_loop example_api [new_upload file_b]
            (upload_one example_api (new_upload file_a) dropped))) = []
   \<and> timers_sound (upload_one example_api (new_upload file_a) dropped)
   \<and> quiet (upload_one example_api (new_upload file_a) dropped)
   \<and> timers_of file_b (upload_one example_api (new_upload file_a) dropped) = []
   \<and> result (example_api file_b) = Inl (ErrorObject ''Network Error'')
   \<and> entries_of file_b
         (advance_to 1000000 (upload_loop example_api []
            (upload_one example_api (new_upload file_b)
               (upload_one example_api (new_upload file_a) dropped))))
       = [\<lparr>up_file = file_b, up_progress = 0, up_status = Error,
            up_error = Some ''Network Error''\<rparr>]"
proof -
  have hyp: "timers_sound dropped" "quiet dropped" "timers_of file_a dropped = []"
    "up_file (new_upload file_a) = file_a" "\<forall>v \<in> set [new_upload file_b]. up_file v \<noteq> file_a"
    by (simp_all add: dropped_eq timers_sound_def quiet_def timers_of_def new_upload_def files_differ)
  have res: "result (example_api file_a) = Inr (mk_doc ''d3'' ''a.pdf'' ''2024-01-03'' Processing)"
    by (simp add: example_api_a)
  have t0: "now (upload_one example_api (new_upload file_a) dropped) = 200"
    by (simp add: after_first_upload)
  have n: "length (entries_of file_a dropped) = 1"
    by (simp add: dropped_eq entries_of_def new_upload_def files_differ)
  have hyp_b: "timers_sound (upload_one example_api (new_upload file_a) dropped)"
    "quiet (upload_one example_api (new_upload file_a) dropped)"
    "timers_of file_b (upload_one example_api (new_upload file_a) dropped) = []"
    "up_file (new_upload file_b) = file_b" "\<forall>v \<in> set []. up_file v \<noteq> file_b"
    by (simp_all add: after_first_upload timers_sound_def quiet_def timers_of_def up_file_new_upload files_differ)
  have res_b: "result (example_api file_b) = Inl (ErrorObject ''Network Error'')"
    by (simp add: example_api_b)
  have ents_b: "entries_of file_b (upload_one example_api (new_upload file_b)
               (upload_one example_api (new_upload file_a) dropped))
       = [\<lparr>up_file = file_b, up_progress = 0, up_status = Error,
            up_error = Some ''Network Error''\<rparr>]"
    by (simp add: after_second_upload [unfolded upload_loop.simps] entries_of_def files_differ)
  note life = upload_entry_lifecycle [OF hyp, of example_api]
  have part_a: "map up_status (entries_of file_a (upload_one example_api (new_upload file_a) dropped))
       = [Processing]
   \<and> map up_status (entries_of file_a
         (advance_to 1199 (upload_loop example_api [new_upload file_b]
            (upload_one example_api (new_upload file_a) dropped)))) = [Processing]
   \<and> map up_status (entries_of file_a
         (advance_to 1200 (upload_loop example_api [new_upload file_b]
            (upload_one example_api (new_upload file_a) dropped)))) = [Completed]
   \<and> map up_status (entries_of file_a
         (advance_to 4199 (upload_loop example_api [new_upload file_b]
            (upload_one example_api (new_upload file_a) dropped)))) = [Completed]
   \<and> entries_of file_a
         (advance_to 4200 (upload_loop example_api [new_upload file_b]
            (upload_one example_api (new_upload file_a) dropped))) = []"
    using life [of 1199] life [of 1200] life [of 4199] life [of 4200]
    unfolding res t0 n example_clock(2-5)
    by simp
  have part_b: "entries_of file_b
         (advance_to 1000000 (upload_loop example_api []
            (upload_one example_api (new_upload file_b)
               (upload_one example_api (new_upload file_a) dropped))))
       = [\<lparr>up_file = file_b, up_progress = 0, up_status = Error,
            up_error = Some ''Network Error''\<rparr>]"
    using upload_entry_lifecycle [OF hyp_b, of example_api 1000000]
    unfolding res_b ents_b by simp
  from hyp(1-4) hyp_b(1-3) res res_b t0 part_a part_b show ?thesis
    by (simp add: up_file_new_upload files_differ)
qed

section \<open>Properties of a drop\<close>

lemma report_progress_frame:
  "store (report_progress f evs w) = store w \<and> toasts (report_progress f evs w) = toasts w
   \<and> calls (report_progress f evs w) = calls w"
  by (induction evs arbitrary: w) (simp_all add: on_progress_def advance_to_frame)

lemma awaited_frame:
  "store (awaited api u w) = store w \<and> toasts (awaited api u w) = toasts w
   \<and> calls (awaited api u w) = calls w @ [Issued (up_file u), settled api (up_file u)]"
  by (simp add: awaited_def Let_def advance_to_frame report_progress_frame)

lemma calls_upload_one:
  "calls (upload_one api u w) = calls w @ [Issued (up_file u), settled api (up_file u)]"
  by (simp add: upload_one_def upload_resolved_def upload_rejected_def awaited_frame
      split: sum.splits)

lemma calls_upload_loop:
  "calls (upload_loop api us w)
     = calls w @ concat (map (\<lambda>u. [Issued (up_file u), settled api (up_file u)]) us)"
  by (induction us arbitrary: w) (simp_all add: calls_upload_one)

lemma calls_start_uploads: "calls (start_uploads isValidPDF files w) = calls w"
  by (simp add: start_uploads_def Let_def)

text \<open>
  Claim C4. For every drop, the calls of the upload API are issued one after the other in
  the order of the accepted files: the log of the drop is, file by file, the issue of the
  call followed by its settling, so that for accepted files A and B dropped together the
  call for B is issued after the call for A has resolved or was rejected, and it is
  issued whichever of the two happened.
\<close>

theorem uploads_are_sequential:
  "calls (onDrop isValidPDF api files w)
     = calls w @ concat (map (\<lambda>f. [Issued f, settled api f]) (filter (accepts isValidPDF) files))
   \<and> (accepts isValidPDF a \<and> accepts isValidPDF b \<longrightarrow>
        calls (onDrop isValidPDF api [a, b] w)
          = calls w @ [Issued a, settled api a, Issued b, settled api b])
   \<and> (\<forall>e. result (api a) = Inl e \<longrightarrow> settled api a = Rejected a)
   \<and> (\<forall>d. result (api a) = Inr d \<longrightarrow> settled api a = Resolved a)"
proof -
  have shape: "calls (onDrop isValidPDF api fs w)
     = calls w @ concat (map (\<lambda>f. [Issued f, settled api f]) (filter (accepts isValidPDF) fs))"
    for fs
    by (simp add: onDrop_def calls_upload_loop calls_start_uploads o_def up_file_new_upload)
  have pair: "calls (onDrop isValidPDF api [a, b] w)
          = calls w @ [Issued a, settled api a, Issued b, settled api b]"
    if "accepts isValidPDF a \<and> accepts isValidPDF b"
    using that by (simp add: shape)
  have "\<forall>e. result (api a) = Inl e \<longrightarrow> settled api a = Rejected a"
    and "\<forall>d. result (api a) = Inr d \<longrightarrow> settled api a = Resolved a"
    by (simp_all add: settled_def)
  with shape pair show ?thesis
    by blast
qed

theorem uploads_are_sequential_witness:
  "accepts example_isValidPDF file_b \<and> accepts example_isValidPDF file_a
   \<and> result (example_api file_b) = Inl (ErrorObject ''Network Error'')
   \<and> calls (onDrop example_isValidPDF example_api [file_b, file_a] initial_world)
       = [Issued file_b, Rejected file_b, Issued file_a, Resolved file_a]"
proof -
  have both: "accepts example_isValidPDF file_b \<and> accepts example_isValidPDF file_a"
    by (simp add: example_accepts)
  have "calls (onDrop example_isValidPDF example_api [file_b, file_a] initial_world)
        = calls initial_world
            @ [Issued file_b, settled example_api file_b, Issued file_a, settled example_api file_a]"
    using uploads_are_sequential [of example_isValidPDF example_api "[]" initial_world
      file_b file_a] both
    by blast
  moreover have "settled example_api file_b = Rejected file_b"
    "settled example_api file_a = Resolved file_a" "calls initial_world = []"
    by (simp_all add: settled_def example_api_a example_api_b initial_world_def)
  ultimately show ?thesis
    using both by (simp add: example_api_b)
qed

lemma documents_upload_one:
  "documents (store (upload_one api u w))
     = (case result (api (up_file u)) of Inl e \<Rightarrow> [] | Inr d \<Rightarrow> [d]) @ documents (store w)"
  by (simp add: upload_one_def upload_resolved_def upload_rejected_def awaited_frame
      addDocument_def setError_def split: sum.splits)

lemma documents_upload_loop:
  "documents (store (upload_loop api us w))
     = rev (resolved_docs api (map up_file us)) @ documents (store w)"
  by (induction us arbitrary: w)
     (auto simp: documents_upload_one resolved_docs_def List.map_filter_simps split: sum.splits)

lemma store_start_uploads: "store (start_uploads isValidPDF files w) = store w"
  by (simp add: start_uploads_def Let_def)

text \<open>
  Claim C6. When the upload call of a file resolves, the code that runs next sets every
  entry of that file to processing with progress 100, leaves the other entries as they
  are, and prepends the returned document to the store's collection, at the time the call
  settled; over a whole drop the documents of the resolved uploads are in the collection
  newest first.
\<close>

theorem resolved_upload_is_processing_and_stored:
  "length (uploads (upload_resolved u doc w)) = length (uploads w)
   \<and> (\<forall>k < length (uploads w).
         uploads (upload_resolved u doc w) ! k
           = (if up_file (uploads w ! k) = up_file u
              then (uploads w ! k)\<lparr>up_status := Processing, up_progress := 100\<rparr>
              else uploads w ! k))
   \<and> store (upload_resolved u doc w) = addDocument doc (store w)
   \<and> documents (addDocument doc s) = doc # documents s
   \<and> now (upload_resolved u doc w) = now w
   \<and> (result (api (up_file u)) = Inr doc \<longrightarrow>
         upload_one api u w = upload_resolved u doc (awaited api u w)
         \<and> documents (store (upload_one api u w)) = doc # documents (store w))
   \<and> documents (store (onDrop isValidPDF api files w))
       = rev (resolved_docs api (filter (accepts isValidPDF) files)) @ documents (store w)"
  by (simp add: upload_resolved_def addDocument_def upload_one_def awaited_frame onDrop_def
      documents_upload_loop store_start_uploads o_def up_file_new_upload)


theorem resolved_upload_is_processing_and_stored_witness:
  "(1::nat) < length (uploads dropped)
   \<and> uploads (upload_resolved (new_upload file_a) (mk_doc ''d3'' ''a.pdf'' ''2024-01-03'' Processing)
         dropped) ! 0
       = \<lparr>up_file = file_a, up_progress = 100, up_status = Processing, up_error = None\<rparr>
   \<and> uploads (upload_resolved (new_upload file_a) (mk_doc ''d3'' ''a.pdf'' ''2024-01-03'' Processing)
         dropped) ! 1
       = new_upload file_b
   \<and> result (example_api (up_file (new_upload file_a)))
       = Inr (mk_doc ''d3'' ''a.pdf'' ''2024-01-03'' Processing)
   \<and> documents (store (upload_one example_api (new_upload file_a) dropped))
       = [mk_doc ''d3'' ''a.pdf'' ''2024-01-03'' Processing]"
proof -
  note claim = resolved_upload_is_processing_and_stored
    [of "new_upload file_a" "mk_doc ''d3'' ''a.pdf'' ''2024-01-03'' Processing" dropped
        initial_store example_api example_isValidPDF "[]"]
  have len: "length (uploads dropped) = 2"
    by (simp add: dropped_eq)
  have res: "result (example_api (up_file (new_upload file_a)))
       = Inr (mk_doc ''d3'' ''a.pdf'' ''2024-01-03'' Processing)"
    by (simp add: up_file_new_upload example_api_a)
  from claim have at: "\<forall>k < length (uploads dropped).
         uploads (upload_resolved (new_upload file_a)
             (mk_doc ''d3'' ''a.pdf'' ''2024-01-03'' Processing) dropped) ! k
           = (if up_file (uploads dropped ! k) = up_file (new_upload file_a)
              then (uploads dropped ! k)\<lparr>up_status := Processing, up_progress := 100\<rparr>
              else uploads dropped ! k)"
    by blast
  from claim res have docs: "documents (store (upload_one example_api (new_upload file_a) dropped))
       = mk_doc ''d3'' ''a.pdf'' ''2024-01-03'' Processing # documents (store dropped)"
    by blast
  from at [rule_format, of 0] at [rule_format, of 1] docs len res show ?thesis
    by (simp add: dropped_eq up_file_new_upload files_differ initial_store_def) (simp add: new_upload_def)
qed

lemma files_fire: "up_file ` set (uploads (fire a w)) \<subseteq> up_file ` set (uploads w)"
  by (cases a) (auto simp: set_status_def)

lemma files_advance_to:
  assumes "up_file ` set (uploads w) \<subseteq> S"
  shows "up_file ` set (uploads (advance_to t w)) \<subseteq> S"
proof (rule advance_to_rule [where I = "\<lambda>v. up_file ` set (uploads v) \<subseteq> S"])
  fix v :: World and x rest
  assume "up_file ` set (uploads v) \<subseteq> S"
  then show "up_file ` set (uploads (fire (snd x) (v\<lparr>now := max (now v) (fst x), timers := rest\<rparr>)))
             \<subseteq> S"
    using files_fire [of "snd x" "v\<lparr>now := max (now v) (fst x), timers := rest\<rparr>"] by auto
qed (use assms in auto)

lemma files_upload_loop:
  assumes "up_file ` set (uploads w) \<subseteq> S"
  shows "up_file ` set (uploads (upload_loop api us w)) \<subseteq> S"
  using assms
proof (induction us arbitrary: w)
  case Nil
  then show ?case by simp
next
  case (Cons u us)
  have "up_file ` set (uploads (upload_one api u w)) \<subseteq> S"
  proof (rule upload_one_keeps [where I = "\<lambda>v. up_file ` set (uploads v) \<subseteq> S"])
    fix t and v :: World assume "up_file ` set (uploads v) \<subseteq> S"
    then show "up_file ` set (uploads (advance_to t v)) \<subseteq> S"
      by (rule files_advance_to)
  qed (use Cons.prems in \<open>auto simp: on_progress_def upload_resolved_def upload_rejected_def\<close>)
  then show ?case
    by (simp add: Cons.IH)
qed

lemma accepts_iff: "accepts isValidPDF f \<longleftrightarrow> isValidPDF f \<and> f_size f \<le> 50 * 1024 * 1024"
  by (simp add: accepts_def reject_notice_def)

lemma uploads_start_uploads:
  "uploads (start_uploads isValidPDF files w)
     = uploads w @ map new_upload (filter (accepts isValidPDF) files)"
  by (simp add: start_uploads_def Let_def)

lemma toasts_start_uploads:
  "toasts (start_uploads isValidPDF files w)
     = toasts w @ List.map_filter (reject_notice isValidPDF) files"
  by (simp add: start_uploads_def Let_def)

lemma notice_shown:
  "f \<in> set files \<Longrightarrow> reject_notice isValidPDF f = Some n
   \<Longrightarrow> n \<in> set (toasts (start_uploads isValidPDF files w))"
  by (auto simp: toasts_start_uploads List.map_filter_def intro!: image_eqI [where x = f])

text \<open>
  The handler on the list it is called with: the entries added are those of the files
  that are valid PDFs of at most 50 MiB, each with status uploading and progress 0; a
  file that is no valid PDF and a file over 50 MiB each get their notice, and such a file
  is in the list neither after the validation nor after the whole run (unless it was
  there before).
\<close>

lemma onDrop_validates_its_argument:
  "uploads (start_uploads isValidPDF files w)
     = uploads w
       @ map new_upload (filter (\<lambda>f. isValidPDF f \<and> f_size f \<le> 50 * 1024 * 1024) files)
   \<and> (\<forall>f. new_upload f
           = \<lparr>up_file = f, up_progress = 0, up_status = Uploading, up_error = None\<rparr>)
   \<and> (\<forall>f \<in> set files. \<not> isValidPDF f \<longrightarrow>
         ToastError (f_name f @ '' is not a valid PDF file'')
           \<in> set (toasts (start_uploads isValidPDF files w)))
   \<and> (\<forall>f \<in> set files. isValidPDF f \<and> 50 * 1024 * 1024 < f_size f \<longrightarrow>
         ToastError (f_name f @ '' is too large (max 50MB)'')
           \<in> set (toasts (start_uploads isValidPDF files w)))
   \<and> (\<forall>f. (\<not> isValidPDF f \<or> 50 * 1024 * 1024 < f_size f) \<and> f \<notin> up_file ` set (uploads w) \<longrightarrow>
         f \<notin> up_file ` set (uploads (start_uploads isValidPDF files w))
         \<and> f \<notin> up_file ` set (uploads (onDrop isValidPDF api files w)))
   \<and> (isValidPDF a \<and> f_size a \<le> 50 * 1024 * 1024 \<and> isValidPDF b \<and> f_size b \<le> 50 * 1024 * 1024
        \<and> isValidPDF c \<and> f_size c \<le> 50 * 1024 * 1024 \<and> 50 * 1024 * 1024 < f_size d
        \<and> mset files = mset [a, b, c, d] \<longrightarrow>
         length (uploads (start_uploads isValidPDF files w)) = length (uploads w) + 3
         \<and> d \<notin> up_file ` set (drop (length (uploads w)) (uploads (start_uploads isValidPDF files w)))
         \<and> (ToastError (f_name d @ '' is not a valid PDF file'')
               \<in> set (toasts (start_uploads isValidPDF files w))
             \<or> ToastError (f_name d @ '' is too large (max 50MB)'')
               \<in> set (toasts (start_uploads isValidPDF files w))))"
  (is "?entries \<and> ?fresh \<and> ?not_pdf \<and> ?too_large \<and> ?never \<and> ?scenario")
proof (intro conjI)
  let ?ok = "\<lambda>f. isValidPDF f \<and> f_size f \<le> 50 * 1024 * 1024"
  have ok: "accepts isValidPDF = ?ok"
    by (rule ext) (rule accepts_iff)
  show entries: ?entries
    by (simp add: uploads_start_uploads ok)
  show ?fresh
    by (simp add: new_upload_def)
  show not_pdf: ?not_pdf
    by (auto intro!: notice_shown simp: reject_notice_def)
  show too_large: ?too_large
    by (auto intro!: notice_shown simp: reject_notice_def)
  show ?never
  proof (intro allI impI)
    fix f
    assume bad: "(\<not> isValidPDF f \<or> 50 * 1024 * 1024 < f_size f) \<and> f \<notin> up_file ` set (uploads w)"
    then have start: "f \<notin> up_file ` set (uploads (start_uploads isValidPDF files w))"
      by (auto simp: entries up_file_new_upload)
    have "up_file ` set (uploads (onDrop isValidPDF api files w))
          \<subseteq> up_file ` set (uploads (start_uploads isValidPDF files w))"
      unfolding onDrop_def by (rule files_upload_loop) simp
    with start show "f \<notin> up_file ` set (uploads (start_uploads isValidPDF files w))
         \<and> f \<notin> up_file ` set (uploads (onDrop isValidPDF api files w))"
      by auto
  qed
  show ?scenario
  proof (intro impI)
    assume sc: "isValidPDF a \<and> f_size a \<le> 50 * 1024 * 1024 \<and> isValidPDF b
        \<and> f_size b \<le> 50 * 1024 * 1024 \<and> isValidPDF c \<and> f_size c \<le> 50 * 1024 * 1024
        \<and> 50 * 1024 * 1024 < f_size d \<and> mset files = mset [a, b, c, d]"
    then have "mset (filter ?ok files) = filter_mset ?ok (mset [a, b, c, d])"
      by simp
    also from sc have "\<dots> = mset [a, b, c]"
      by simp
    finally have "size (mset (filter ?ok files)) = 3"
      by simp
    then have three: "length (filter ?ok files) = 3"
      by (simp only: size_mset)
    from sc have "d \<in># mset files" by simp
    then have d: "d \<in> set files" by simp
    from sc have "\<not> ?ok d" by simp
    then have out: "d \<notin> up_file ` set (map new_upload (filter ?ok files))"
      by (auto simp: up_file_new_upload)
    from d sc not_pdf too_large
    have "ToastError (f_name d @ '' is not a valid PDF file'')
               \<in> set (toasts (start_uploads isValidPDF files w))
             \<or> ToastError (f_name d @ '' is too large (max 50MB)'')
               \<in> set (toasts (start_uploads isValidPDF files w))"
      by blast
    with three out show "length (uploads (start_uploads isValidPDF files w)) = length (uploads w) + 3
         \<and> d \<notin> up_file ` set (drop (length (uploads w)) (uploads (start_uploads isValidPDF files w)))
         \<and> (ToastError (f_name d @ '' is not a valid PDF file'')
               \<in> set (toasts (start_uploads isValidPDF files w))
             \<or> ToastError (f_name d @ '' is too large (max 50MB)'')
               \<in> set (toasts (start_uploads isValidPDF files w)))"
      by (simp add: entries)
  qed
qed


lemma example_files:
  "example_isValidPDF file_a" "f_size file_a \<le> 52428800"
  "example_isValidPDF file_b" "f_size file_b \<le> 52428800"
  "example_isValidPDF file_c" "f_size file_c \<le> 52428800"
  "example_isValidPDF file_big" "52428800 < f_size file_big" "\<not> f_size file_big \<le> 52428800"
  "\<not> example_isValidPDF file_txt"
  "f_name file_big = ''big.pdf''" "f_name file_txt = ''notes.txt''"
  by (simp_all add: example_isValidPDF_def file_a_def file_b_def file_c_def file_big_def
      file_txt_def)

lemma onDrop_validates_its_argument_example:
  "example_isValidPDF file_a \<and> f_size file_a \<le> 50 * 1024 * 1024
   \<and> example_isValidPDF file_b \<and> f_size file_b \<le> 50 * 1024 * 1024
   \<and> example_isValidPDF file_c \<and> f_size file_c \<le> 50 * 1024 * 1024
   \<and> example_isValidPDF file_big \<and> 50 * 1024 * 1024 < f_size file_big
   \<and> \<not> example_isValidPDF file_txt
   \<and> mset [file_a, file_big, file_txt, file_b, file_c] = mset [file_a, file_b, file_c, file_big, file_txt]
   \<and> uploads (start_uploads example_isValidPDF [file_a, file_big, file_txt, file_b, file_c]
        initial_world)
      = [new_upload file_a, new_upload file_b, new_upload file_c]
   \<and> ToastError ''big.pdf is too large (max 50MB)''
       \<in> set (toasts (start_uploads example_isValidPDF [file_a, file_big, file_txt, file_b, file_c]
                 initial_world))
   \<and> ToastError ''notes.txt is not a valid PDF file''
       \<in> set (toasts (start_uploads example_isValidPDF [file_a, file_big, file_txt, file_b, file_c]
                 initial_world))
   \<and> file_big \<notin> up_file ` set (uploads (onDrop example_isValidPDF example_api
        [file_a, file_big, file_txt, file_b, file_c] initial_world))
   \<and> length (uploads (start_uploads example_isValidPDF [file_a, file_big, file_b, file_c]
        initial_world)) = 3"
proof -
  note claim = onDrop_validates_its_argument
    [of example_isValidPDF "[file_a, file_big, file_txt, file_b, file_c]" initial_world example_api]
  note scenario = onDrop_validates_its_argument
    [of example_isValidPDF "[file_a, file_big, file_b, file_c]" initial_world example_api
        file_a file_b file_c file_big]
  have empty: "uploads initial_world = []"
    by (simp add: initial_world_def)
  have perm: "mset [file_a, file_big, file_b, file_c] = mset [file_a, file_b, file_c, file_big]"
    "mset [file_a, file_big, file_txt, file_b, file_c]
       = mset [file_a, file_b, file_c, file_big, file_txt]"
    by simp_all
  from claim have "uploads (start_uploads example_isValidPDF
        [file_a, file_big, file_txt, file_b, file_c] initial_world)
      = [new_upload file_a, new_upload file_b, new_upload file_c]"
    by (simp add: example_files empty)
  moreover from claim have "ToastError (f_name file_big @ '' is too large (max 50MB)'')
       \<in> set (toasts (start_uploads example_isValidPDF [file_a, file_big, file_txt, file_b, file_c]
                 initial_world))"
    using example_files by auto
  moreover from claim have "ToastError (f_name file_txt @ '' is not a valid PDF file'')
       \<in> set (toasts (start_uploads example_isValidPDF [file_a, file_big, file_txt, file_b, file_c]
                 initial_world))"
    using example_files by auto
  moreover from claim have "file_big \<notin> up_file ` set (uploads (onDrop example_isValidPDF example_api
        [file_a, file_big, file_txt, file_b, file_c] initial_world))"
    using example_files empty by auto
  moreover from scenario have "length (uploads (start_uploads example_isValidPDF
        [file_a, file_big, file_b, file_c] initial_world)) = 3"
    using example_files perm(1) empty by simp
  ultimately show ?thesis
    using example_files perm(2) by simp
qed

subsection \<open>A drop through the dropzone\<close>

lemma toasts_upload_one:
  "toasts (upload_one api u w) = toasts w @ [upload_toast api (up_file u)]"
  by (simp add: upload_one_def upload_resolved_def upload_rejected_def awaited_frame
      upload_toast_def split: sum.splits)

lemma toasts_upload_loop:
  "toasts (upload_loop api us w) = toasts w @ map (\<lambda>u. upload_toast api (up_file u)) us"
  by (induction us arbitrary: w) (simp_all add: toasts_upload_one)

lemma toasts_onDrop:
  "toasts (onDrop isValidPDF api files w)
     = toasts w @ List.map_filter (reject_notice isValidPDF) files
         @ map (upload_toast api) (filter (accepts isValidPDF) files)"
  by (simp add: onDrop_def toasts_upload_loop toasts_start_uploads o_def up_file_new_upload)

lemma no_size_notice_after_dropzone:
  "List.map_filter (reject_notice isValidPDF) (filter (dropzone_accepts matchesAccept) files)
     = map (\<lambda>f. ToastError (f_name f @ '' is not a valid PDF file''))
         (filter (\<lambda>f. dropzone_accepts matchesAccept f \<and> \<not> isValidPDF f) files)"
  by (induction files) (auto simp: reject_notice_def dropzone_accepts_def)

lemma example_dropzone:
  "dropzone_accepts example_matchesAccept file_a" "dropzone_accepts example_matchesAccept file_b"
  "dropzone_accepts example_matchesAccept file_c"
  "\<not> dropzone_accepts example_matchesAccept file_big"
  by (simp_all add: dropzone_accepts_def example_matchesAccept_def file_a_def file_b_def
      file_c_def file_big_def)

lemma example_notices:
  "reject_notice example_isValidPDF file_a = None" "reject_notice example_isValidPDF file_b = None"
  "reject_notice example_isValidPDF file_c = None"
  "reject_notice example_isValidPDF file_big = Some (ToastError ''big.pdf is too large (max 50MB)'')"
  using example_files by (simp_all add: reject_notice_def)

lemma example_upload_toasts:
  "upload_toast example_api file_a = ToastSuccess ''a.pdf uploaded successfully''"
  "upload_toast example_api file_b = ToastError ''Failed to upload b.pdf''"
  "upload_toast example_api file_c = ToastError ''Failed to upload c.pdf''"
  by (simp_all add: upload_toast_def example_api_def file_a_def file_b_def file_c_def)

text \<open>
  Claim C5 says that a dropped file over 50 MiB produces a rejection notice. On a drop of
  three valid PDFs and one oversized file the dropzone withholds the oversized file from
  the handler: exactly the three valid files enter the upload list, and no notice is
  shown for the fourth, neither at the validation nor by the end of the drop. The
  handler's own notice for it is shown only if the file is handed to the handler
  directly.
\<close>

theorem oversized_file_dropped_without_notice:
  "50 * 1024 * 1024 < f_size file_big
   \<and> toasts (start_uploads example_isValidPDF [file_a, file_b, file_c, file_big] initial_world)
       = [ToastError ''big.pdf is too large (max 50MB)'']
   \<and> filter (dropzone_accepts example_matchesAccept) [file_a, file_b, file_c, file_big]
       = [file_a, file_b, file_c]
   \<and> toasts (start_uploads example_isValidPDF
         (filter (dropzone_accepts example_matchesAccept) [file_a, file_b, file_c, file_big])
         initial_world) = []
   \<and> uploads (start_uploads example_isValidPDF
         (filter (dropzone_accepts example_matchesAccept) [file_a, file_b, file_c, file_big])
         initial_world) = [new_upload file_a, new_upload file_b, new_upload file_c]
   \<and> toasts (drop_files example_matchesAccept example_isValidPDF example_api
         [file_a, file_b, file_c, file_big] initial_world)
       = [ToastSuccess ''a.pdf uploaded successfully'', ToastError ''Failed to upload b.pdf'',
          ToastError ''Failed to upload c.pdf'']"
proof -
  have gate: "filter (dropzone_accepts example_matchesAccept) [file_a, file_b, file_c, file_big]
       = [file_a, file_b, file_c]"
    by (simp add: example_dropzone)
  have ok: "accepts example_isValidPDF file_a" "accepts example_isValidPDF file_b"
    "accepts example_isValidPDF file_c" "\<not> accepts example_isValidPDF file_big"
    by (simp_all add: accepts_def example_notices)
  have empty: "toasts initial_world = []" "uploads initial_world = []"
    by (simp_all add: initial_world_def)
  have "toasts (start_uploads example_isValidPDF [file_a, file_b, file_c, file_big] initial_world)
       = [ToastError ''big.pdf is too large (max 50MB)'']"
    by (simp add: toasts_start_uploads example_notices empty)
  moreover have "toasts (start_uploads example_isValidPDF [file_a, file_b, file_c] initial_world) = []"
    by (simp add: toasts_start_uploads example_notices empty)
  moreover have "uploads (start_uploads example_isValidPDF [file_a, file_b, file_c] initial_world)
      = [new_upload file_a, new_upload file_b, new_upload file_c]"
    by (simp add: uploads_start_uploads ok empty)
  moreover have "toasts (drop_files example_matchesAccept example_isValidPDF example_api
         [file_a, file_b, file_c, file_big] initial_world)
       = [ToastSuccess ''a.pdf uploaded successfully'', ToastError ''Failed to upload b.pdf'',
          ToastError ''Failed to upload c.pdf'']"
    unfolding drop_files_def gate
    by (simp add: toasts_onDrop example_notices ok example_upload_toasts empty)
  ultimately show ?thesis
    unfolding gate using example_files(8) by simp
qed

section \<open>The store's error field\<close>






section \<open>Deleting a document\<close>

text \<open>
  Claim C9. When the user deletes a document, \<open>removeDocument\<close> is applied to the store
  exactly when the user confirmed and the call of the delete API resolved, after that
  call; when the call is rejected the store is unchanged, so the document is still in the
  collection, and a failure notice is shown. Without confirmation nothing happens.
\<close>

theorem delete_removes_only_after_success:
  "handleDelete False response doc c = c
   \<and> (\<forall>e. card_store (handleDelete True (Some e) doc c) = card_store c
          \<and> card_toasts (handleDelete True (Some e) doc c)
              = card_toasts c @ [ToastError ''Failed to delete document''])
   \<and> card_store (handleDelete True None doc c) = removeDocument (d_id doc) (card_store c)
   \<and> card_toasts (handleDelete True None doc c)
       = card_toasts c @ [ToastSuccess ''Document deleted successfully'']
   \<and> (card_store (handleDelete confirmed response doc c) \<noteq> card_store c
         \<longrightarrow> confirmed \<and> response = None)
   \<and> (\<forall>e. doc \<in> set (documents (card_store c))
         \<longrightarrow> doc \<in> set (documents (card_store (handleDelete confirmed (Some e) doc c))))
   \<and> delete_calls (handleDelete True response doc c) = delete_calls c @ [d_id doc]
   \<and> isDeleting (handleDelete True response doc c) = False"
  by (cases response) (auto simp: handleDelete_def Let_def)

theorem delete_removes_only_after_success_witness:
  "mk_doc ''d1'' ''b.pdf'' ''2024-01-01'' Processing \<in> set (documents (card_store example_card))
   \<and> mk_doc ''d1'' ''b.pdf'' ''2024-01-01'' Processing
       \<in> set (documents (card_store (handleDelete True (Some (ErrorObject ''Network Error''))
            (mk_doc ''d1'' ''b.pdf'' ''2024-01-01'' Processing) example_card)))
   \<and> documents (card_store (handleDelete True None
         (mk_doc ''d1'' ''b.pdf'' ''2024-01-01'' Processing) example_card))
       = [mk_doc ''d2'' ''a.pdf'' ''2024-01-02'' Completed]
   \<and> card_store (handleDelete True None
         (mk_doc ''d1'' ''b.pdf'' ''2024-01-01'' Processing) example_card) \<noteq> card_store example_card"
proof -
  note claim = delete_removes_only_after_success
    [of _ "mk_doc ''d1'' ''b.pdf'' ''2024-01-01'' Processing" example_card]
  have "mk_doc ''d1'' ''b.pdf'' ''2024-01-01'' Processing
          \<in> set (documents (card_store example_card))"
    by (simp add: example_card_def example_store_def)
  moreover from this claim [of "Some (ErrorObject ''Network Error'')" True]
  have "mk_doc ''d1'' ''b.pdf'' ''2024-01-01'' Processing
       \<in> set (documents (card_store (handleDelete True (Some (ErrorObject ''Network Error''))
            (mk_doc ''d1'' ''b.pdf'' ''2024-01-01'' Processing) example_card)))"
    by blast
  moreover from claim [of None True]
  have removed: "card_store (handleDelete True None
         (mk_doc ''d1'' ''b.pdf'' ''2024-01-01'' Processing) example_card)
       = removeDocument (d_id (mk_doc ''d1'' ''b.pdf'' ''2024-01-01'' Processing))
           (card_store example_card)"
    by blast
  ultimately show ?thesis
    unfolding removed
    by (simp add: example_card_def example_store_def removeDocument_def mk_doc_def
        current_has_id_def summary_of_doc_def mk_summary_def)
qed

section \<open>The list shown on the home page\<close>

lemma mset_insert_sorted: "mset (insert_sorted cmp x xs) = add_mset x (mset xs)"
  by (induction xs) auto

lemma mset_sort_js: "mset (sort_js cmp xs) = mset xs"
  by (induction xs) (auto simp: mset_insert_sorted)

lemma set_insert_sorted: "set (insert_sorted cmp x xs) = insert x (set xs)"
  by (induction xs) auto

lemma set_sort_js: "set (sort_js cmp xs) = set xs"
  by (induction xs) (auto simp: set_insert_sorted)

lemma sorted_wrt_insert_sorted:
  assumes total: "\<And>a b. a \<in> S \<Longrightarrow> b \<in> S \<Longrightarrow> le a b \<or> le b a"
    and trans: "\<And>a b c. a \<in> S \<Longrightarrow> b \<in> S \<Longrightarrow> c \<in> S \<Longrightarrow> le a b \<Longrightarrow> le b c \<Longrightarrow> le a c"
    and le: "\<And>a b. a \<in> S \<Longrightarrow> b \<in> S \<Longrightarrow> le a b \<longleftrightarrow> sort_compare cmp a b \<le> 0"
    and "x \<in> S" and "set xs \<subseteq> S" and "sorted_wrt le xs"
  shows "sorted_wrt le (insert_sorted cmp x xs)"
  using assms(5,6)
proof (induction xs)
  case Nil
  then show ?case by simp
next
  case (Cons y ys)
  show ?case
  proof (cases "sort_compare cmp x y \<le> 0")
    case True
    with \<open>x \<in> S\<close> Cons.prems have xy: "le x y" by (simp add: le)
    have "le x z" if "z \<in> set ys" for z
    proof -
      from Cons.prems that have "le y z" and "y \<in> S" and "z \<in> S" by auto
      with xy \<open>x \<in> S\<close> show ?thesis by (blast intro: trans)
    qed
    with True xy Cons.prems show ?thesis by auto
  next
    case False
    with \<open>x \<in> S\<close> Cons.prems have "\<not> le x y" by (simp add: le)
    with total [of x y] \<open>x \<in> S\<close> Cons.prems have yx: "le y x" by auto
    from Cons have "sorted_wrt le (insert_sorted cmp x ys)" by simp
    with False yx Cons.prems show ?thesis
      by (auto simp: set_insert_sorted)
  qed
qed

lemma sorted_wrt_sort_js:
  assumes total: "\<And>a b. a \<in> S \<Longrightarrow> b \<in> S \<Longrightarrow> le a b \<or> le b a"
    and trans: "\<And>a b c. a \<in> S \<Longrightarrow> b \<in> S \<Longrightarrow> c \<in> S \<Longrightarrow> le a b \<Longrightarrow> le b c \<Longrightarrow> le a c"
    and le: "\<And>a b. a \<in> S \<Longrightarrow> b \<in> S \<Longrightarrow> le a b \<longleftrightarrow> sort_compare cmp a b \<le> 0"
    and "set xs \<subseteq> S"
  shows "sorted_wrt le (sort_js cmp xs)"
  using assms(4)
proof (induction xs)
  case Nil
  then show ?case by simp
next
  case (Cons x xs)
  then have "sorted_wrt le (sort_js cmp xs)" and "x \<in> S" and "set (sort_js cmp xs) \<subseteq> S"
    by (auto simp: set_sort_js)
  then show ?case
    using sorted_wrt_insert_sorted [where le = le and S = S and cmp = cmp, OF total trans le]
    by simp
qed

lemma status_str_inj: "status_str a = status_str b \<longleftrightarrow> a = b"
  by (cases a; cases b) simp_all

lemma keep_completed:
  "keep_doc toLowerCase FilterCompleted [] d \<longleftrightarrow> d_status d = Completed"
  using status_str_inj [of "d_status d" Completed] by (simp add: keep_doc_def)


lemma sort_recent:
  assumes "\<forall>d \<in> set xs. getTime (d_uploadedAt d) \<noteq> None"
  shows "sorted_wrt (\<lambda>a b. \<exists>ta tb. getTime (d_uploadedAt a) = Some ta
                          \<and> getTime (d_uploadedAt b) = Some tb \<and> tb \<le> ta)
           (sort_js (compare_docs getTime localeCompare SortRecent) xs)"
proof (rule sorted_wrt_sort_js [where S = "{d. getTime (d_uploadedAt d) \<noteq> None}"])
  show "set xs \<subseteq> {d. getTime (d_uploadedAt d) \<noteq> None}"
    using assms by auto
qed (auto simp: sort_compare_def compare_docs_def)

lemma sort_name:
  assumes "\<forall>x y. localeCompare x y \<le> 0 \<or> localeCompare y x \<le> 0"
    and "\<forall>x y z. localeCompare x y \<le> 0 \<and> localeCompare y z \<le> 0 \<longrightarrow> localeCompare x z \<le> 0"
  shows "sorted_wrt (\<lambda>a b. localeCompare (d_originalName a) (d_originalName b) \<le> 0)
           (sort_js (compare_docs getTime localeCompare SortName) xs)"
proof (rule sorted_wrt_sort_js [where S = UNIV])
  fix a b c :: Document
  assume "localeCompare (d_originalName a) (d_originalName b) \<le> 0"
    and "localeCompare (d_originalName b) (d_originalName c) \<le> 0"
  with assms(2) show "localeCompare (d_originalName a) (d_originalName c) \<le> 0"
    by blast
qed (use assms(1) in \<open>auto simp: sort_compare_def compare_docs_def\<close>)


lemma two_dates:
  assumes "d_uploadedAt older = ''2024-01-01''" and "d_uploadedAt newer = ''2024-01-02''"
    and "getTime ''2024-01-01'' = Some t1" and "getTime ''2024-01-02'' = Some t2" and "t1 < t2"
  shows "filteredAndSortedDocuments toLowerCase getTime localeCompare FilterAll [] SortRecent
            [older, newer] = [newer, older]"
    and "filteredAndSortedDocuments toLowerCase getTime localeCompare FilterAll [] SortRecent
            [newer, older] = [newer, older]"
proof -
  have keep: "keep_doc toLowerCase FilterAll [] d" for d
    by (simp add: keep_doc_def)
  have "sort_compare (compare_docs getTime localeCompare SortRecent) older newer = t2 - t1"
    and "sort_compare (compare_docs getTime localeCompare SortRecent) newer older = t1 - t2"
    by (simp_all only: sort_compare_def compare_docs_def assms(1-4) SortBy.case option.case
        prod.case)
  with \<open>t1 < t2\<close> keep show "filteredAndSortedDocuments toLowerCase getTime localeCompare FilterAll [] SortRecent
            [older, newer] = [newer, older]"
    and "filteredAndSortedDocuments toLowerCase getTime localeCompare FilterAll [] SortRecent
            [newer, older] = [newer, older]"
    by (simp_all add: filteredAndSortedDocuments_def)
qed


lemma two_names:
  assumes "d_originalName da = ''a.pdf''" and "d_originalName db = ''b.pdf''"
    and "localeCompare ''a.pdf'' ''b.pdf'' < 0" and "0 < localeCompare ''b.pdf'' ''a.pdf''"
  shows "filteredAndSortedDocuments toLowerCase getTime localeCompare FilterAll [] SortName
            [db, da] = [da, db]"
    and "filteredAndSortedDocuments toLowerCase getTime localeCompare FilterAll [] SortName
            [da, db] = [da, db]"
proof -
  have keep: "keep_doc toLowerCase FilterAll [] d" for d
    by (simp add: keep_doc_def)
  have "sort_compare (compare_docs getTime localeCompare SortName) da db
          = localeCompare ''a.pdf'' ''b.pdf''"
    and "sort_compare (compare_docs getTime localeCompare SortName) db da
          = localeCompare ''b.pdf'' ''a.pdf''"
    by (simp_all only: sort_compare_def compare_docs_def assms(1,2) SortBy.case option.case)
  with assms(3,4) keep show "filteredAndSortedDocuments toLowerCase getTime localeCompare FilterAll [] SortName
            [db, da] = [da, db]"
    and "filteredAndSortedDocuments toLowerCase getTime localeCompare FilterAll [] SortName
            [da, db] = [da, db]"
    by (simp_all add: filteredAndSortedDocuments_def)
qed

lemma two_status:
  assumes "d_status dc = Completed" and "d_status dp = Processing"
  shows "filteredAndSortedDocuments toLowerCase getTime localeCompare FilterCompleted [] sortBy
            [dc, dp] = [dc]"
    and "filteredAndSortedDocuments toLowerCase getTime localeCompare FilterCompleted [] sortBy
            [dp, dc] = [dc]"
  using assms by (simp_all add: filteredAndSortedDocuments_def keep_completed)

lemma view_recent:
  assumes "\<forall>d \<in> set docs. getTime (d_uploadedAt d) \<noteq> None"
  shows "sorted_wrt (\<lambda>a b. \<exists>ta tb. getTime (d_uploadedAt a) = Some ta
                          \<and> getTime (d_uploadedAt b) = Some tb \<and> tb \<le> ta)
          (filteredAndSortedDocuments toLowerCase getTime localeCompare filterBy q SortRecent docs)"
  unfolding filteredAndSortedDocuments_def
  by (rule sort_recent) (use assms in simp)

lemma view_name:
  assumes "(\<forall>x y. localeCompare x y \<le> 0 \<or> localeCompare y x \<le> 0)
        \<and> (\<forall>x y z. localeCompare x y \<le> 0 \<and> localeCompare y z \<le> 0 \<longrightarrow> localeCompare x z \<le> 0)"
  shows "sorted_wrt (\<lambda>a b. localeCompare (d_originalName a) (d_originalName b) \<le> 0)
          (filteredAndSortedDocuments toLowerCase getTime localeCompare filterBy q SortName docs)"
  unfolding filteredAndSortedDocuments_def
  by (rule sort_name) (use assms in blast)+

text \<open>
  Claim C8. For every document list, the list shown holds exactly the documents that pass
  the filter. Sorted by \<open>recent\<close> it is in descending order of upload time, when every
  \<open>uploadedAt\<close> is a date; a document uploaded 2024-01-02 comes before one uploaded
  2024-01-01. Sorted by \<open>name\<close> it is in ascending order of \<open>originalName\<close> under
  \<open>localeCompare\<close>, when that is a consistent comparator; \<open>a.pdf\<close> comes before
  \<open>b.pdf\<close>. Filtered by status \<open>completed\<close>, with no search text, it holds exactly the
  documents whose status is completed; of one completed and one processing document it
  holds the completed one.
\<close>

theorem sorted_and_filtered_view:
  "mset (filteredAndSortedDocuments toLowerCase getTime localeCompare filterBy q sortBy docs)
     = mset (filter (keep_doc toLowerCase filterBy q) docs)
   \<and> ((\<forall>d \<in> set docs. getTime (d_uploadedAt d) \<noteq> None) \<longrightarrow>
        sorted_wrt (\<lambda>a b. \<exists>ta tb. getTime (d_uploadedAt a) = Some ta
                          \<and> getTime (d_uploadedAt b) = Some tb \<and> tb \<le> ta)
          (filteredAndSortedDocuments toLowerCase getTime localeCompare filterBy q SortRecent docs))
   \<and> ((\<forall>x y. localeCompare x y \<le> 0 \<or> localeCompare y x \<le> 0)
        \<and> (\<forall>x y z. localeCompare x y \<le> 0 \<and> localeCompare y z \<le> 0 \<longrightarrow> localeCompare x z \<le> 0) \<longrightarrow>
        sorted_wrt (\<lambda>a b. localeCompare (d_originalName a) (d_originalName b) \<le> 0)
          (filteredAndSortedDocuments toLowerCase getTime localeCompare filterBy q SortName docs))
   \<and> (d_uploadedAt older = ''2024-01-01'' \<and> d_uploadedAt newer = ''2024-01-02''
        \<and> getTime ''2024-01-01'' = Some t1 \<and> getTime ''2024-01-02'' = Some t2 \<and> t1 < t2 \<longrightarrow>
        filteredAndSortedDocuments toLowerCase getTime localeCompare FilterAll [] SortRecent
            [older, newer] = [newer, older]
        \<and> filteredAndSortedDocuments toLowerCase getTime localeCompare FilterAll [] SortRecent
            [newer, older] = [newer, older])
   \<and> (d_originalName da = ''a.pdf'' \<and> d_originalName db = ''b.pdf''
        \<and> localeCompare ''a.pdf'' ''b.pdf'' < 0 \<and> 0 < localeCompare ''b.pdf'' ''a.pdf'' \<longrightarrow>
        filteredAndSortedDocuments toLowerCase getTime localeCompare FilterAll [] SortName
            [db, da] = [da, db]
        \<and> filteredAndSortedDocuments toLowerCase getTime localeCompare FilterAll [] SortName
            [da, db] = [da, db])
   \<and> mset (filteredAndSortedDocuments toLowerCase getTime localeCompare FilterCompleted [] sortBy docs)
       = mset (filter (\<lambda>d. d_status d = Completed) docs)
   \<and> (d_status dc = Completed \<and> d_status dp = Processing \<longrightarrow>
        filteredAndSortedDocuments toLowerCase getTime localeCompare FilterCompleted [] sortBy
            [dc, dp] = [dc]
        \<and> filteredAndSortedDocuments toLowerCase getTime localeCompare FilterCompleted [] sortBy
            [dp, dc] = [dc])"
  (is "?perm \<and> ?recent \<and> ?name \<and> ?two_dates \<and> ?two_names \<and> ?completed \<and> ?two_status")
proof -
  have ?perm
    by (simp add: filteredAndSortedDocuments_def mset_sort_js)
  moreover have ?recent
    by (intro impI view_recent)
  moreover have ?name
    by (intro impI view_name)
  moreover have ?two_dates
    by (intro impI conjI two_dates [where older = older and newer = newer and ?t1.0 = t1 and ?t2.0 = t2])
       simp_all
  moreover have ?two_names
    by (intro impI conjI two_names [where da = da and db = db]) simp_all
  moreover have ?completed
    by (simp add: filteredAndSortedDocuments_def mset_sort_js keep_completed)
  moreover have ?two_status
    by (intro impI conjI two_status [where dc = dc and dp = dp]) simp_all
  ultimately show ?thesis
    by (intro conjI)
qed

lemma example_localeCompare_total:
  "example_localeCompare x y \<le> 0 \<or> example_localeCompare y x \<le> 0"
  by (simp add: example_localeCompare_def) linarith

lemma example_localeCompare_trans:
  "example_localeCompare x y \<le> 0 \<Longrightarrow> example_localeCompare y z \<le> 0
   \<Longrightarrow> example_localeCompare x z \<le> 0"
  by (simp add: example_localeCompare_def)

lemma example_names:
  "example_localeCompare ''a.pdf'' ''b.pdf'' < 0" "0 < example_localeCompare ''b.pdf'' ''a.pdf''"
  by (simp_all add: example_localeCompare_def first_code_def)


theorem sorted_and_filtered_view_witness:
  "example_getTime ''2024-01-01'' = Some 1704067200000
   \<and> example_getTime ''2024-01-02'' = Some 1704153600000
   \<and> example_localeCompare ''a.pdf'' ''b.pdf'' < 0 \<and> 0 < example_localeCompare ''b.pdf'' ''a.pdf''
   \<and> filteredAndSortedDocuments id example_getTime example_localeCompare FilterAll [] SortRecent
        [mk_doc ''d1'' ''b.pdf'' ''2024-01-01'' Processing,
         mk_doc ''d2'' ''a.pdf'' ''2024-01-02'' Completed]
      = [mk_doc ''d2'' ''a.pdf'' ''2024-01-02'' Completed,
         mk_doc ''d1'' ''b.pdf'' ''2024-01-01'' Processing]
   \<and> filteredAndSortedDocuments id example_getTime example_localeCompare FilterAll [] SortName
        [mk_doc ''d1'' ''b.pdf'' ''2024-01-01'' Processing,
         mk_doc ''d2'' ''a.pdf'' ''2024-01-02'' Completed]
      = [mk_doc ''d2'' ''a.pdf'' ''2024-01-02'' Completed,
         mk_doc ''d1'' ''b.pdf'' ''2024-01-01'' Processing]
   \<and> filteredAndSortedDocuments id example_getTime example_localeCompare FilterCompleted [] SortRecent
        [mk_doc ''d2'' ''a.pdf'' ''2024-01-02'' Completed,
         mk_doc ''d1'' ''b.pdf'' ''2024-01-01'' Processing]
      = [mk_doc ''d2'' ''a.pdf'' ''2024-01-02'' Completed]
   \<and> sorted_wrt (\<lambda>a b. example_localeCompare (d_originalName a) (d_originalName b) \<le> 0)
        (filteredAndSortedDocuments id example_getTime example_localeCompare FilterAll [] SortName
           (documents example_store))"
proof -
  let ?d1 = "mk_doc ''d1'' ''b.pdf'' ''2024-01-01'' Processing"
  let ?d2 = "mk_doc ''d2'' ''a.pdf'' ''2024-01-02'' Completed"
  note claim = sorted_and_filtered_view
    [of id example_getTime example_localeCompare FilterAll "[]" SortRecent "documents example_store"
        ?d1 ?d2 1704067200000 1704153600000 ?d2 ?d1 ?d2 ?d1]
  have times: "example_getTime ''2024-01-01'' = Some 1704067200000"
    "example_getTime ''2024-01-02'' = Some 1704153600000"
    by (simp_all add: example_getTime_def)
  have dates: "d_uploadedAt ?d1 = ''2024-01-01'' \<and> d_uploadedAt ?d2 = ''2024-01-02''
        \<and> example_getTime ''2024-01-01'' = Some 1704067200000
        \<and> example_getTime ''2024-01-02'' = Some 1704153600000
        \<and> (1704067200000 :: int) < 1704153600000"
    using times by (simp add: mk_doc_def)
  have names: "d_originalName ?d2 = ''a.pdf'' \<and> d_originalName ?d1 = ''b.pdf''
        \<and> example_localeCompare ''a.pdf'' ''b.pdf'' < 0
        \<and> 0 < example_localeCompare ''b.pdf'' ''a.pdf''"
    using example_names by (simp add: mk_doc_def)
  have stats: "d_status ?d2 = Completed \<and> d_status ?d1 = Processing"
    by (simp add: mk_doc_def)
  have consistent: "(\<forall>x y. example_localeCompare x y \<le> 0 \<or> example_localeCompare y x \<le> 0)
        \<and> (\<forall>x y z. example_localeCompare x y \<le> 0 \<and> example_localeCompare y z \<le> 0
              \<longrightarrow> example_localeCompare x z \<le> 0)"
    using example_localeCompare_total example_localeCompare_trans by blast
  from claim dates
  have recent: "filteredAndSortedDocuments id example_getTime example_localeCompare FilterAll []
      SortRecent [?d1, ?d2] = [?d2, ?d1]"
    by blast
  from claim names
  have name: "filteredAndSortedDocuments id example_getTime example_localeCompare FilterAll []
      SortName [?d1, ?d2] = [?d2, ?d1]"
    by blast
  from claim stats
  have completed: "filteredAndSortedDocuments id example_getTime example_localeCompare
      FilterCompleted [] SortRecent [?d2, ?d1] = [?d2]"
    by blast
  from claim consistent
  have sorted: "sorted_wrt (\<lambda>a b. example_localeCompare (d_originalName a) (d_originalName b) \<le> 0)
        (filteredAndSortedDocuments id example_getTime example_localeCompare FilterAll [] SortName
           (documents example_store))"
    by blast
  from times example_names recent name completed sorted show ?thesis
    by (intro conjI)
qed

end
